theory Spec2Isabelle
  imports Main
begin

section \<open>rawd.c: a select-based TCP relay\<close>

text \<open>
  The program is one C file. \<open>init_srv\<close> creates the listening socket, \<open>init_cli\<close>
  accepts one connection, and \<open>raw\<close> runs the \<open>select\<close> loop that reads from every
  ready client and writes what it read to every other client.

  Everything the program does goes through system calls, so the model is explicit about
  them. A call returns \<open>-1\<close> and sets \<open>errno\<close>, or returns a non-negative value: the
  first is \<open>Err e\<close>, the second \<open>Ok v\<close>, and each test \<open>== -1\<close> of the source is a case
  distinction on that. Descriptors are therefore natural numbers. What the kernel
  answers is an input of the model (the records \<open>srv_env\<close> and \<open>pass\<close>); what the program
  asks and prints is recorded, in order, in a list of events.
\<close>

subsection \<open>Constants\<close>

definition MAX_CONNS :: nat where
  "MAX_CONNS = 10"

definition MAX_BUF :: nat where
  "MAX_BUF = 255"

text \<open>\<open>EXIT_FAILURE\<close> comes from \<open>stdlib.h\<close>; POSIX only says it is not zero, and it is 1 on
  the systems the program builds on.\<close>

definition EXIT_FAILURE :: int where
  "EXIT_FAILURE = 1"

text \<open>\<open>FD_SETSIZE\<close> comes from \<open>sys/select.h\<close>: the number of descriptors an \<open>fd_set\<close>
  has room for, 1024 on the systems the program builds on. \<open>FD_SET\<close> with a descriptor
  that is not below it writes outside the set.\<close>

definition FD_SETSIZE :: nat where
  "FD_SETSIZE = 1024"

subsection \<open>System calls and what is observed of them\<close>

datatype errno =
  EINTR | EAGAIN | ECONNABORTED | EMFILE | ENFILE | ENOMEM | EBADF | EINVAL
  | ECONNRESET | EPIPE | EIO | EADDRINUSE | EACCES

datatype 'a sysret = Err errno | Ok 'a

datatype family = AF_UNSPEC | AF_INET | AF_INET6

datatype socktype = SOCK_STREAM | SOCK_DGRAM

datatype ai_flag = AI_PASSIVE | AI_CANONNAME | AI_NUMERICHOST

record addrinfo =
  ai_flags :: "ai_flag list"
  ai_family :: family
  ai_socktype :: socktype
  ai_protocol :: nat
  ai_addr :: string

datatype sockopt = SO_REUSEADDR | SO_KEEPALIVE

datatype signal = SIGCHLD | SIGPIPE

text \<open>What a process does with a signal it did not install a handler for: the default
  action, which for \<open>SIGPIPE\<close> is to end the process, or nothing.\<close>

datatype disposition = SIG_DFL | SIG_IGN

datatype event =
    Stderr string
  | Perror string errno
  | Getaddrinfo "string option" string addrinfo
  | Freeaddrinfo
  | Socket family socktype nat "nat sysret"
  | Setsockopt nat sockopt int "nat sysret"
  | Bind nat string "nat sysret"
  | Listen nat nat "nat sysret"
  | Sigaction signal "nat sysret"
  | Select nat "nat set" "nat sysret"
  | Accept nat "nat sysret"
  | Read nat nat "nat sysret"
  | Write nat string "nat sysret"
  | Close nat

text \<open>
  The process ends by \<open>exit\<close>, with the status and everything observed up to there, by
  a signal whose action is to end it, or by running into behaviour that C leaves
  undefined. A process that a signal ended has no exit status and has printed nothing
  about it.
\<close>

datatype halt =
    Exit int "event list"
  | Killed signal "event list"
  | Undefined_Behaviour "event list"

subsection \<open>\<open>error\<close>\<close>

text \<open>\<open>error(msg)\<close>: \<open>perror(msg)\<close>, which prints the message and the text of \<open>errno\<close>, then
  \<open>exit(EXIT_FAILURE)\<close>.\<close>

definition error :: "string \<Rightarrow> errno \<Rightarrow> event list \<Rightarrow> halt" where
  "error msg e tr = Exit EXIT_FAILURE (tr @ [Perror msg e])"

subsection \<open>\<open>init_srv\<close>\<close>

text \<open>
  The kernel's and the resolver's answers during \<open>init_srv\<close>. \<open>getaddrinfo\<close> is asked
  once, with the port's text; it answers an error code (zero for success) and the list
  \<open>res0\<close>. The loop over the list asks \<open>socket\<close>, \<open>setsockopt\<close> and \<open>bind\<close> at most once
  for each candidate, so their answers are indexed by the candidate's position.
\<close>

record srv_env =
  getaddrinfo_ret :: "string \<Rightarrow> int \<times> addrinfo list"
  gai_strerror :: "int \<Rightarrow> string"
  socket_ret :: "nat \<Rightarrow> nat sysret"
  setsockopt_ret :: "nat \<Rightarrow> nat sysret"
  bind_ret :: "nat \<Rightarrow> nat sysret"
  listen_ret :: "nat sysret"
  sigaction_ret :: "nat sysret"

text \<open>\<open>sprintf(port_str, "%d", port)\<close>: the decimal text of a C \<open>int\<close>.\<close>

definition digit :: "nat \<Rightarrow> char" where
  "digit d = ''0123456789'' ! d"

fun digits :: "nat \<Rightarrow> string" where
  "digits n = (if n < 10 then [digit n] else digits (n div 10) @ [digit (n mod 10)])"

declare digits.simps [simp del]

definition sprintf_d :: "int \<Rightarrow> string" where
  "sprintf_d port = (if port < 0 then CHR ''-'' # digits (nat (- port)) else digits (nat port))"

text \<open>The \<open>hints\<close> that \<open>init_srv\<close> fills in after \<open>memset\<close>.\<close>

definition hints :: addrinfo where
  "hints = \<lparr>ai_flags = [AI_PASSIVE], ai_family = AF_UNSPEC, ai_socktype = SOCK_STREAM,
            ai_protocol = 0, ai_addr = []\<rparr>"

text \<open>
  The loop over the candidates (lines 99 to 111). The result is the socket that was
  bound, or \<open>None\<close> when the list ran out (\<open>res == NULL\<close> after the loop). A candidate
  whose socket cannot be created or bound is passed over; a failing \<open>setsockopt\<close> ends
  the process.
\<close>

fun bind_loop :: "srv_env \<Rightarrow> nat \<Rightarrow> addrinfo list \<Rightarrow> event list \<Rightarrow> halt + (nat option \<times> event list)" where
  "bind_loop env k [] tr = Inr (None, tr)"
| "bind_loop env k (res # rest) tr =
     (case socket_ret env k of
        Err e \<Rightarrow>
          bind_loop env (Suc k) rest
            (tr @ [Socket (ai_family res) (ai_socktype res) (ai_protocol res) (Err e)])
      | Ok srv_sockfd \<Rightarrow>
          (let tr1 = tr @ [Socket (ai_family res) (ai_socktype res) (ai_protocol res) (Ok srv_sockfd)]
           in case setsockopt_ret env k of
                Err e \<Rightarrow>
                  Inl (error ''ERROR on setsockopt'' e
                         (tr1 @ [Setsockopt srv_sockfd SO_REUSEADDR 1 (Err e)]))
              | Ok r \<Rightarrow>
                  (let tr2 = tr1 @ [Setsockopt srv_sockfd SO_REUSEADDR 1 (Ok r)]
                   in case bind_ret env k of
                        Err e \<Rightarrow>
                          bind_loop env (Suc k) rest (tr2 @ [Bind srv_sockfd (ai_addr res) (Err e)])
                      | Ok b \<Rightarrow>
                          Inr (Some srv_sockfd, tr2 @ [Bind srv_sockfd (ai_addr res) (Ok b)]))))"

text \<open>
  \<open>init_srv\<close>. The array \<open>port_str\<close> has 6 bytes; \<open>sprintf\<close> writes the text and a
  terminating zero, so a text of more than 5 characters is written past its end.
\<close>

definition init_srv :: "srv_env \<Rightarrow> int \<Rightarrow> halt + (nat \<times> event list)" where
  "init_srv env port =
     (let tr0 = (if port < 1 \<or> port > 65535 then [Stderr (''Invalid port'' @ [CHR 0x0A])] else []);
          port_str = sprintf_d port
      in if 6 < length port_str + 1 then Inl (Undefined_Behaviour tr0)
         else
           case getaddrinfo_ret env port_str of (err, res0) \<Rightarrow>
             (let tr1 = tr0 @ [Getaddrinfo None port_str hints]
              in if err \<noteq> 0 then
                   Inl (Exit EXIT_FAILURE
                          (tr1 @ [Stderr (''ERROR on getaddrinfo: '' @ gai_strerror env err @ [CHR 0x0A])]))
                 else
                   case bind_loop env 0 res0 tr1 of
                     Inl h \<Rightarrow> Inl h
                   | Inr (None, tr2) \<Rightarrow>
                       Inl (Exit EXIT_FAILURE (tr2 @ [Stderr (''ERROR binding'' @ [CHR 0x0A])]))
                   | Inr (Some srv_sockfd, tr2) \<Rightarrow>
                       (let tr3 = tr2 @ [Freeaddrinfo]
                        in case listen_ret env of
                             Err e \<Rightarrow>
                               Inl (error ''ERROR on listen'' e
                                      (tr3 @ [Listen srv_sockfd MAX_CONNS (Err e)]))
                           | Ok l \<Rightarrow>
                               (let tr4 = tr3 @ [Listen srv_sockfd MAX_CONNS (Ok l)]
                                in case sigaction_ret env of
                                     Err e \<Rightarrow>
                                       Inl (error ''ERROR on sigaction'' e
                                              (tr4 @ [Sigaction SIGCHLD (Err e)]))
                                   | Ok g \<Rightarrow>
                                       Inr (srv_sockfd, tr4 @ [Sigaction SIGCHLD (Ok g)])))))"

subsection \<open>The state of \<open>raw\<close> and one pass of its loop\<close>

text \<open>
  The variables of \<open>raw\<close> that live across iterations, the kernel's receive queue of
  each descriptor (the bytes that arrived and were not read yet), and the events so far.
\<close>

record state =
  master :: "nat set"
  fdmax :: nat
  buf :: string
  inq :: "nat \<Rightarrow> string"
  trace :: "event list"

text \<open>
  The kernel's answers during one iteration of \<open>while(1)\<close>. In one iteration the
  listening socket is accepted on at most once, each client is read at most once, and
  each pair of a source and a destination is written at most once, so the answers are
  indexed by the descriptors. \<open>select_fds\<close> are the descriptors the kernel finds
  readable. \<open>read_ret p i = Ok bs\<close> says that the read succeeds and that \<open>bs\<close> reached
  the socket since the previous read; with nothing queued and nothing arrived the read
  returns 0, the peer's orderly close. \<open>write_ret p i j\<close> answers the write to \<open>j\<close> of
  what was read from \<open>i\<close>. \<open>sigpipe\<close> is the action of \<open>SIGPIPE\<close>: the program sets the
  action of \<open>SIGCHLD\<close> and of no other signal, so it is the one the process was started
  with.
\<close>

record pass =
  select_ret :: "nat sysret"
  select_fds :: "nat set"
  accept_ret :: "nat sysret"
  read_ret :: "nat \<Rightarrow> string sysret"
  write_ret :: "nat \<Rightarrow> nat \<Rightarrow> nat sysret"
  sigpipe :: disposition

subsection \<open>\<open>init_cli\<close>\<close>

definition init_cli :: "pass \<Rightarrow> nat \<Rightarrow> event list \<Rightarrow> halt + (nat \<times> event list)" where
  "init_cli p srv_sockfd tr =
     (case accept_ret p of
        Err e \<Rightarrow> Inl (error ''ERROR on accept'' e (tr @ [Accept srv_sockfd (Err e)]))
      | Ok cli_sockfd \<Rightarrow> Inr (cli_sockfd, tr @ [Accept srv_sockfd (Ok cli_sockfd)]))"

subsection \<open>\<open>raw\<close>\<close>

text \<open>
  A \<open>write\<close> that fails (lines 193 and 194). The descriptors are stream sockets and the
  call is \<open>write\<close>, not \<open>send\<close> with \<open>MSG_NOSIGNAL\<close>: when the connection is broken the
  call fails with \<open>EPIPE\<close> and the kernel raises \<open>SIGPIPE\<close>. With the default action the
  signal ends the process before the call returns to the program, so the test of line
  194 is never reached. In every other case the program sees \<open>-1\<close> and calls \<open>error\<close>.
  \<open>tr\<close> are the events up to and including the call.
\<close>

definition write_error :: "pass \<Rightarrow> errno \<Rightarrow> event list \<Rightarrow> halt" where
  "write_error p e tr =
     (if e = EPIPE \<and> sigpipe p = SIG_DFL then Killed SIGPIPE tr
      else error ''ERROR on write'' e tr)"

text \<open>The inner loop (lines 190 to 197): \<open>write(j, buf, nbytes)\<close> for every \<open>j\<close> up to
  \<open>fdmax\<close> that is in \<open>master\<close> and is neither the listening socket nor the source.\<close>

function fanout :: "pass \<Rightarrow> nat \<Rightarrow> nat \<Rightarrow> nat \<Rightarrow> nat \<Rightarrow> state \<Rightarrow> halt + state" where
  "fanout p srv_sockfd i nbytes j s =
     (if j \<le> fdmax s then
        if j \<in> master s \<and> j \<noteq> srv_sockfd \<and> j \<noteq> i then
          (case write_ret p i j of
             Err e \<Rightarrow>
               Inl (write_error p e (trace s @ [Write j (take nbytes (buf s)) (Err e)]))
           | Ok w \<Rightarrow>
               fanout p srv_sockfd i nbytes (Suc j)
                 (s\<lparr>trace := trace s @ [Write j (take nbytes (buf s)) (Ok w)]\<rparr>))
        else fanout p srv_sockfd i nbytes (Suc j) s
      else Inr s)"
  by pat_completeness auto
termination
  by (relation "measure (\<lambda>(p, srv_sockfd, i, nbytes, j, s). Suc (fdmax s) - j)") auto

declare fanout.simps [simp del]

text \<open>
  \<open>read(i, buf, sizeof(buf))\<close> on a stream socket: the kernel copies the first bytes of
  its queue, at most \<open>count\<close> of them, to the start of the buffer and keeps the rest.
\<close>

definition sys_read :: "string \<Rightarrow> nat \<Rightarrow> string \<Rightarrow> nat \<times> string \<times> string" where
  "sys_read queue count b =
     (let got = take count queue
      in (length got, got @ drop (length got) b, drop count queue))"

text \<open>The branch for a ready client (lines 183 to 198).\<close>

definition serve_client :: "pass \<Rightarrow> nat \<Rightarrow> nat \<Rightarrow> state \<Rightarrow> halt + state" where
  "serve_client p srv_sockfd i s =
     (case read_ret p i of
        Err e \<Rightarrow> Inl (error ''ERROR on read'' e (trace s @ [Read i MAX_BUF (Err e)]))
      | Ok arrived \<Rightarrow>
          (case sys_read (inq s i @ arrived) MAX_BUF (buf s) of (nbytes, buf', rest) \<Rightarrow>
             (let s1 = s\<lparr>buf := buf', inq := (inq s)(i := rest),
                         trace := trace s @ [Read i MAX_BUF (Ok nbytes)]\<rparr>
              in if nbytes = 0 then
                   Inr (s1\<lparr>master := master s1 - {i}, trace := trace s1 @ [Close i]\<rparr>)
                 else fanout p srv_sockfd i nbytes 0 s1)))"

text \<open>The branch for the listening socket (lines 178 to 180). The new connection has
  nothing queued yet.\<close>

definition accept_client :: "pass \<Rightarrow> nat \<Rightarrow> state \<Rightarrow> halt + state" where
  "accept_client p srv_sockfd s =
     (case init_cli p srv_sockfd (trace s) of
        Inl h \<Rightarrow> Inl h
      | Inr (cli_sockfd, tr) \<Rightarrow>
          if FD_SETSIZE \<le> cli_sockfd then Inl (Undefined_Behaviour tr)
          else
            Inr (s\<lparr>master := insert cli_sockfd (master s),
                   fdmax := (if cli_sockfd > fdmax s then cli_sockfd else fdmax s),
                   inq := (inq s)(cli_sockfd := []),
                   trace := tr\<rparr>))"

text \<open>The body of the outer \<open>for\<close> loop (lines 176 to 200).\<close>

definition serve :: "pass \<Rightarrow> nat \<Rightarrow> nat set \<Rightarrow> nat \<Rightarrow> state \<Rightarrow> halt + state" where
  "serve p srv_sockfd read_fds i s =
     (if i \<in> read_fds then
        if i = srv_sockfd then accept_client p srv_sockfd s
        else serve_client p srv_sockfd i s
      else Inr s)"

text \<open>
  The outer \<open>for\<close> loop (line 175). Its bound \<open>fdmax\<close> is read again at every step, and
  the step at the listening socket may raise it.
\<close>

function dispatch :: "pass \<Rightarrow> nat \<Rightarrow> nat set \<Rightarrow> nat \<Rightarrow> state \<Rightarrow> halt + state" where
  "dispatch p srv_sockfd read_fds i s =
     (if i \<le> fdmax s then
        (case serve p srv_sockfd read_fds i s of
           Inl h \<Rightarrow> Inl h
         | Inr s' \<Rightarrow> dispatch p srv_sockfd read_fds (Suc i) s')
      else Inr s)"
  by pat_completeness auto
termination
proof (relation "measures [\<lambda>(p, srv, read_fds, i, s). if i \<le> srv then 1 else 0,
                           \<lambda>(p, srv, read_fds, i, s). Suc (fdmax s) - i]", goal_cases)
  case 1
  show ?case by simp
next
  case (2 p srv read_fds i s s')
  have fan: "fanout q l k n j t = Inr t' \<Longrightarrow> fdmax t' = fdmax t" for q l k n j t t'
  proof (induction q l k n j t rule: fanout.induct)
    case (1 q l k n j t)
    show ?case
    proof (cases "j \<le> fdmax t")
      case False
      with "1.prems" show ?thesis by (simp add: fanout.simps)
    next
      case le: True
      show ?thesis
      proof (cases "j \<in> master t \<and> j \<noteq> l \<and> j \<noteq> k")
        case False
        with le "1.prems" have "fanout q l k n (Suc j) t = Inr t'"
          by (simp add: fanout.simps [of q l k n j])
        with "1.IH"(2) [OF le False] show ?thesis by simp
      next
        case True
        with le "1.prems" obtain w where w: "write_ret q k j = Ok w"
          and r: "fanout q l k n (Suc j)
                    (t\<lparr>trace := trace t @ [Write j (take n (buf t)) (Ok w)]\<rparr>) = Inr t'"
          by (simp add: fanout.simps [of q l k n j] split: sysret.splits)
        from "1.IH"(1) [OF le True w r] show ?thesis by simp
      qed
    qed
  qed
  show ?case
  proof (cases "i = srv")
    case True
    then show ?thesis by simp
  next
    case False
    with 2 have "fdmax s' = fdmax s"
      by (auto simp: serve_def serve_client_def sys_read_def Let_def
          split: if_splits sysret.splits dest: fan)
    with 2 False show ?thesis by auto
  qed
qed

declare dispatch.simps [simp del]

text \<open>
  \<open>select(fdmax + 1, &read_fds, NULL, NULL, NULL)\<close>: of the descriptors below \<open>nfds\<close>
  that are set on entry, those that are readable stay set.
\<close>

definition sys_select :: "nat \<Rightarrow> nat set \<Rightarrow> nat set \<Rightarrow> nat set" where
  "sys_select nfds read_fds readable = read_fds \<inter> readable \<inter> {..<nfds}"

text \<open>One iteration of \<open>while(1)\<close> (lines 171 to 201).\<close>

definition raw_pass :: "nat \<Rightarrow> pass \<Rightarrow> state \<Rightarrow> halt + state" where
  "raw_pass srv_sockfd p s =
     (let read_fds = master s
      in case select_ret p of
           Err e \<Rightarrow>
             Inl (error ''ERROR on select'' e
                    (trace s @ [Select (fdmax s + 1) read_fds (Err e)]))
         | Ok n \<Rightarrow>
             dispatch p srv_sockfd (sys_select (fdmax s + 1) read_fds (select_fds p)) 0
               (s\<lparr>trace := trace s @ [Select (fdmax s + 1) read_fds (Ok n)]\<rparr>))"

text \<open>
  \<open>while(1)\<close> never ends by itself: the list of passes is how far the run is followed.
  \<open>Inr s\<close> is the process back at the top of the loop, \<open>Inl h\<close> the process ended.
\<close>

fun raw_loop :: "nat \<Rightarrow> pass list \<Rightarrow> state \<Rightarrow> halt + state" where
  "raw_loop srv_sockfd [] s = Inr s"
| "raw_loop srv_sockfd (p # ps) s =
     (case raw_pass srv_sockfd p s of
        Inl h \<Rightarrow> Inl h
      | Inr s' \<Rightarrow> raw_loop srv_sockfd ps s')"

text \<open>The state at the first \<open>while(1)\<close> (lines 163 to 168); \<open>buf\<close> is not initialised.\<close>

definition raw_init :: "nat \<Rightarrow> string \<Rightarrow> event list \<Rightarrow> state" where
  "raw_init srv_sockfd buf0 tr =
     \<lparr>master = {srv_sockfd}, fdmax = srv_sockfd, buf = buf0, inq = (\<lambda>fd. []), trace = tr\<rparr>"

definition raw :: "srv_env \<Rightarrow> pass list \<Rightarrow> string \<Rightarrow> int \<Rightarrow> halt + state" where
  "raw env ps buf0 port =
     (case init_srv env port of
        Inl h \<Rightarrow> Inl h
      | Inr (srv_sockfd, tr) \<Rightarrow>
          if FD_SETSIZE \<le> srv_sockfd then Inl (Undefined_Behaviour tr)
          else raw_loop srv_sockfd ps (raw_init srv_sockfd buf0 tr))"

definition main_port :: int where
  "main_port = 6601"

definition main :: "srv_env \<Rightarrow> pass list \<Rightarrow> string \<Rightarrow> halt + state" where
  "main env ps buf0 = raw env ps buf0 main_port"

section \<open>Reading the model\<close>

text \<open>
  The destinations of one fan-out, from \<open>j\<close> on: the descriptors the inner loop writes
  to when no write fails. \<open>write_all\<close> is the inner loop run over such a list.
\<close>

definition dests :: "nat \<Rightarrow> nat \<Rightarrow> nat \<Rightarrow> state \<Rightarrow> nat list" where
  "dests srv i j s = filter (\<lambda>k. k \<in> master s \<and> k \<noteq> srv \<and> k \<noteq> i) [j..<Suc (fdmax s)]"

fun write_all :: "pass \<Rightarrow> nat \<Rightarrow> string \<Rightarrow> nat list \<Rightarrow> event list \<Rightarrow> halt + event list" where
  "write_all p i d [] tr = Inr tr"
| "write_all p i d (k # ks) tr =
     (case write_ret p i k of
        Err e \<Rightarrow> Inl (write_error p e (tr @ [Write k d (Err e)]))
      | Ok w \<Rightarrow> write_all p i d ks (tr @ [Write k d (Ok w)]))"

text \<open>The events of a run, however it ended.\<close>

fun htrace :: "halt \<Rightarrow> event list" where
  "htrace (Exit status tr) = tr"
| "htrace (Killed sg tr) = tr"
| "htrace (Undefined_Behaviour tr) = tr"

definition events :: "halt + state \<Rightarrow> event list" where
  "events r = (case r of Inl h \<Rightarrow> htrace h | Inr s \<Rightarrow> trace s)"

text \<open>The \<open>write\<close> calls among some events: all of them with their destination, and the
  bytes of those to one descriptor.\<close>

fun writes_of :: "event list \<Rightarrow> (nat \<times> string) list" where
  "writes_of [] = []"
| "writes_of (Write fd d r # es) = (fd, d) # writes_of es"
| "writes_of (e # es) = writes_of es"

definition writes_to :: "nat \<Rightarrow> event list \<Rightarrow> string list" where
  "writes_to fd es = map snd (filter (\<lambda>w. fst w = fd) (writes_of es))"

text \<open>
  The descriptors that were closed and not handed out again by \<open>accept\<close>, after some
  events, starting from the set \<open>C\<close>; and the check that no \<open>write\<close> goes to such a
  descriptor.
\<close>

fun closed_after :: "nat set \<Rightarrow> event list \<Rightarrow> nat set" where
  "closed_after C [] = C"
| "closed_after C (Close fd # es) = closed_after (insert fd C) es"
| "closed_after C (Accept l (Ok fd) # es) = closed_after (C - {fd}) es"
| "closed_after C (e # es) = closed_after C es"

fun no_write_after_close :: "nat set \<Rightarrow> event list \<Rightarrow> bool" where
  "no_write_after_close C [] = True"
| "no_write_after_close C (Write fd d r # es) = (fd \<notin> C \<and> no_write_after_close C es)"
| "no_write_after_close C (e # es) = no_write_after_close (closed_after C [e]) es"

text \<open>The events of a run after the first \<open>length tr\<close> ones: those of the loop, when \<open>tr\<close>
  is what was observed before it.\<close>

definition since :: "event list \<Rightarrow> halt + state \<Rightarrow> event list" where
  "since tr r = drop (length tr) (events r)"

section \<open>An example run\<close>

text \<open>
  Kernel answers for a pass in which only the listening socket is ready and \<open>accept\<close>
  returns \<open>c\<close>, and for a pass in which only client \<open>i\<close> is ready and \<open>d\<close> has arrived
  on it (nothing, for a client that has closed). The run: the listening socket is 3;
  clients 4, 5 and 6 connect; 4 sends \<open>hello\<close>, 5 sends \<open>hi\<close>, 6 closes, 4 sends \<open>ping\<close>.
\<close>

definition pass_connect :: "nat \<Rightarrow> nat \<Rightarrow> pass" where
  "pass_connect srv c =
     \<lparr>select_ret = Ok 1, select_fds = {srv}, accept_ret = Ok c,
      read_ret = (\<lambda>fd. Ok []), write_ret = (\<lambda>i j. Ok 0), sigpipe = SIG_DFL\<rparr>"

definition pass_send :: "nat \<Rightarrow> string \<Rightarrow> pass" where
  "pass_send i d =
     \<lparr>select_ret = Ok 1, select_fds = {i}, accept_ret = Err EAGAIN,
      read_ret = (\<lambda>fd. Ok (if fd = i then d else [])), write_ret = (\<lambda>i j. Ok (length d)),
      sigpipe = SIG_DFL\<rparr>"

text \<open>A pass in which clients 4 and 5 are both ready, with \<open>hello\<close> arrived on 4 and \<open>hi\<close>
  on 5.\<close>

definition pass_both :: pass where
  "pass_both =
     \<lparr>select_ret = Ok 2, select_fds = {4, 5}, accept_ret = Err EAGAIN,
      read_ret = (\<lambda>fd. Ok (if fd = 4 then ''hello'' else ''hi'')),
      write_ret = (\<lambda>i j. Ok (if i = 4 then 5 else 2)), sigpipe = SIG_DFL\<rparr>"

definition scenario :: "pass list" where
  "scenario = [pass_connect 3 4, pass_connect 3 5, pass_connect 3 6, pass_send 4 ''hello'',
               pass_send 5 ''hi'', pass_send 6 [], pass_send 4 ''ping'']"

text \<open>What the loop keeps, with respect to the events \<open>tr\<close> that came before it.\<close>

definition kept :: "nat \<Rightarrow> event list \<Rightarrow> state \<Rightarrow> bool" where
  "kept srv tr t \<longleftrightarrow>
     length tr \<le> length (trace t) \<and> srv \<in> master t \<and>
     Close srv \<notin> set (drop (length tr) (trace t)) \<and>
     no_write_after_close {} (drop (length tr) (trace t)) \<and>
     closed_after {} (drop (length tr) (trace t)) \<inter> master t = {}"

text \<open>The listening socket 3 with the clients \<open>cs\<close> connected, nothing queued.\<close>

definition connected :: "nat set \<Rightarrow> state" where
  "connected cs = \<lparr>master = insert 3 cs, fdmax = Max (insert 3 cs), buf = ''xyz'',
                    inq = (\<lambda>fd. []), trace = []\<rparr>"

text \<open>A state without the contents of \<open>buf\<close>, and the outcome of a run without them: all
  that was observed, and every variable but the buffer.\<close>

definition forget_buf :: "state \<Rightarrow> state" where
  "forget_buf s = s\<lparr>buf := []\<rparr>"

definition observed :: "halt + state \<Rightarrow> halt + state" where
  "observed r = map_sum id forget_buf r"

text \<open>What the process printed on its diagnostic stream.\<close>

fun diagnostics :: "event list \<Rightarrow> event list" where
  "diagnostics [] = []"
| "diagnostics (Stderr msg # es) = Stderr msg # diagnostics es"
| "diagnostics (Perror msg e # es) = Perror msg e # diagnostics es"
| "diagnostics (ev # es) = diagnostics es"










text \<open>
  Reading the events of \<open>init_srv\<close>. A candidate is passed over when its socket cannot
  be created, or is created, gets its option set and cannot be bound. \<open>socket_attempts\<close>
  are the arguments of the \<open>socket\<close> calls, in order. \<open>reuse_before_bind prev es\<close> checks
  that every \<open>bind\<close> in \<open>es\<close> comes directly after a successful \<open>setsockopt\<close> that
  sets \<open>SO_REUSEADDR\<close> to 1 on the same socket, \<open>prev\<close> being the event before \<open>es\<close>.
\<close>

definition candidate :: "addrinfo \<Rightarrow> family \<times> socktype \<times> nat" where
  "candidate res = (ai_family res, ai_socktype res, ai_protocol res)"

definition passed_over :: "srv_env \<Rightarrow> nat \<Rightarrow> bool" where
  "passed_over env k =
     (case socket_ret env k of
        Err e \<Rightarrow> True
      | Ok fd \<Rightarrow>
          (case setsockopt_ret env k of
             Err e \<Rightarrow> False
           | Ok r \<Rightarrow> (case bind_ret env k of Err e \<Rightarrow> True | Ok b \<Rightarrow> False)))"

fun socket_attempts :: "event list \<Rightarrow> (family \<times> socktype \<times> nat) list" where
  "socket_attempts [] = []"
| "socket_attempts (Socket f t pr r # es) = (f, t, pr) # socket_attempts es"
| "socket_attempts (e # es) = socket_attempts es"

definition sets_reuseaddr :: "event option \<Rightarrow> nat \<Rightarrow> bool" where
  "sets_reuseaddr prev fd =
     (case prev of
        Some (Setsockopt fd' opt v (Ok r)) \<Rightarrow> fd' = fd \<and> opt = SO_REUSEADDR \<and> v = 1
      | _ \<Rightarrow> False)"

fun reuse_before_bind :: "event option \<Rightarrow> event list \<Rightarrow> bool" where
  "reuse_before_bind prev [] = True"
| "reuse_before_bind prev (Bind fd a b # es) =
     (sets_reuseaddr prev fd \<and> reuse_before_bind (Some (Bind fd a b)) es)"
| "reuse_before_bind prev (e # es) = reuse_before_bind (Some e) es"

definition srv_events :: "halt + ('a \<times> event list) \<Rightarrow> event list" where
  "srv_events r = (case r of Inl h \<Rightarrow> htrace h | Inr (fd, tr) \<Rightarrow> tr)"

text \<open>Answers for two candidates, the first of which cannot be bound.\<close>

definition two_candidates :: "addrinfo list" where
  "two_candidates =
     [\<lparr>ai_flags = [AI_PASSIVE], ai_family = AF_INET, ai_socktype = SOCK_STREAM, ai_protocol = 6,
       ai_addr = ''0.0.0.0''\<rparr>,
      \<lparr>ai_flags = [AI_PASSIVE], ai_family = AF_INET6, ai_socktype = SOCK_STREAM, ai_protocol = 6,
       ai_addr = ''::''\<rparr>]"

definition env_second_binds :: srv_env where
  "env_second_binds =
     \<lparr>getaddrinfo_ret = (\<lambda>service. (0, two_candidates)), gai_strerror = (\<lambda>err. ''unknown''),
      socket_ret = (\<lambda>k. Ok (3 + k)), setsockopt_ret = (\<lambda>k. Ok 0),
      bind_ret = (\<lambda>k. if k = 0 then Err EADDRINUSE else Ok 0),
      listen_ret = Ok 0, sigaction_ret = Ok 0\<rparr>"

text \<open>The same, with address resolution failing, with no candidate that can be bound, and
  with \<open>listen\<close> failing.\<close>

definition env_no_address :: srv_env where
  "env_no_address = env_second_binds\<lparr>getaddrinfo_ret := (\<lambda>service. (- 2, []))\<rparr>"

definition env_none_bind :: srv_env where
  "env_none_bind = env_second_binds\<lparr>bind_ret := (\<lambda>k. Err EADDRINUSE)\<rparr>"

definition env_listen_fails :: srv_env where
  "env_listen_fails = env_second_binds\<lparr>listen_ret := Err EADDRINUSE\<rparr>"

text \<open>
  The failures of \<open>accept\<close> that are transient, to be retried rather than treated as
  fatal: the call was interrupted by a signal, no connection is pending at the moment,
  or the connection was aborted by the peer before it was accepted.
\<close>

definition transient :: "errno \<Rightarrow> bool" where
  "transient e \<longleftrightarrow> e = EINTR \<or> e = EAGAIN \<or> e = ECONNABORTED"

text \<open>A pass in which the listening socket 3 is ready and the connection is aborted
  before \<open>accept\<close> returns it.\<close>

definition pass_accept_aborted :: pass where
  "pass_accept_aborted = (pass_connect 3 7)\<lparr>accept_ret := Err ECONNABORTED\<rparr>"

text \<open>
  Whose bytes a \<open>write\<close> carries is not in the call: it is the read before it. \<open>relayed
  src i j es\<close> are the \<open>write\<close> calls to \<open>j\<close> among the events \<open>es\<close> that relay a read
  from \<open>i\<close>, each with the bytes it was given and what it returned; \<open>src\<close> is the
  descriptor of the last read before \<open>es\<close>, and \<open>source_after src es\<close> the one of the last
  read when \<open>es\<close> are over. \<open>taken ws\<close> are the bytes that such calls passed on: of the
  bytes a call was given, as many as it returned.
\<close>

fun relayed :: "nat option \<Rightarrow> nat \<Rightarrow> nat \<Rightarrow> event list \<Rightarrow> (string \<times> nat sysret) list" where
  "relayed src i j [] = []"
| "relayed src i j (Read k n r # es) = relayed (Some k) i j es"
| "relayed src i j (Write k d r # es) =
     (if src = Some i \<and> k = j then (d, r) # relayed src i j es else relayed src i j es)"
| "relayed src i j (e # es) = relayed src i j es"









section \<open>The inner loop\<close>

lemma htrace_error [simp]: "htrace (error msg e tr) = tr @ [Perror msg e]"
  by (simp add: error_def)

lemma htrace_write_error:
  "htrace (write_error p e tr) = tr @ (if e = EPIPE \<and> sigpipe p = SIG_DFL then [] else [Perror ''ERROR on write'' e])"
  by (simp add: write_error_def)

lemma fanout_write_all:
  "fanout p srv i n j s =
     map_sum id (\<lambda>tr. s\<lparr>trace := tr\<rparr>) (write_all p i (take n (buf s)) (dests srv i j s) (trace s))"
proof (induction p srv i n j s rule: fanout.induct)
  case (1 p srv i n j s)
  let ?d = "take n (buf s)"
  show ?case
  proof (cases "j \<le> fdmax s")
    case False
    then show ?thesis by (simp add: fanout.simps dests_def)
  next
    case le: True
    then have upt: "[j..<Suc (fdmax s)] = j # [Suc j..<Suc (fdmax s)]"
      by (simp add: upt_conv_Cons)
    show ?thesis
    proof (cases "j \<in> master s \<and> j \<noteq> srv \<and> j \<noteq> i")
      case False
      have "fanout p srv i n j s = fanout p srv i n (Suc j) s"
        by (subst fanout.simps) (simp add: le False)
      moreover have "dests srv i j s = dests srv i (Suc j) s"
        unfolding dests_def upt using False by simp
      ultimately show ?thesis using "1.IH"(2) [OF le False] by simp
    next
      case True
      have d: "dests srv i j s = j # dests srv i (Suc j) s"
        unfolding dests_def upt using True by simp
      show ?thesis
      proof (cases "write_ret p i j")
        case (Err e)
        have "fanout p srv i n j s = Inl (write_error p e (trace s @ [Write j ?d (Err e)]))"
          by (subst fanout.simps) (simp add: le True Err)
        then show ?thesis by (simp add: d Err)
      next
        case (Ok w)
        let ?s = "s\<lparr>trace := trace s @ [Write j ?d (Ok w)]\<rparr>"
        have "fanout p srv i n j s = fanout p srv i n (Suc j) ?s"
          by (subst fanout.simps) (simp add: le True Ok)
        moreover have "dests srv i (Suc j) ?s = dests srv i (Suc j) s"
          by (simp add: dests_def)
        ultimately show ?thesis using "1.IH"(1) [OF le True Ok] by (simp add: d Ok)
      qed
    qed
  qed
qed

lemma write_all_Inr:
  "write_all p i d ks tr = Inr tr' \<Longrightarrow>
     tr' = tr @ map (\<lambda>k. Write k d (write_ret p i k)) ks \<and> (\<forall>k\<in>set ks. \<exists>w. write_ret p i k = Ok w)"
proof (induction ks arbitrary: tr)
  case Nil
  then show ?case by simp
next
  case (Cons k ks)
  from Cons.prems obtain w where w: "write_ret p i k = Ok w"
    and r: "write_all p i d ks (tr @ [Write k d (Ok w)]) = Inr tr'"
    by (auto split: sysret.splits)
  from Cons.IH [OF r] w show ?case by simp
qed

lemma write_all_ok:
  "(\<And>k. k \<in> set ks \<Longrightarrow> \<exists>w. write_ret p i k = Ok w) \<Longrightarrow>
     write_all p i d ks tr = Inr (tr @ map (\<lambda>k. Write k d (write_ret p i k)) ks)"
proof (induction ks arbitrary: tr)
  case Nil
  show ?case by simp
next
  case (Cons k ks)
  from Cons.prems [of k] obtain w where w: "write_ret p i k = Ok w" by auto
  have "write_all p i d ks (tr @ [Write k d (Ok w)])
        = Inr ((tr @ [Write k d (Ok w)]) @ map (\<lambda>k. Write k d (write_ret p i k)) ks)"
    by (rule Cons.IH) (simp add: Cons.prems)
  then show ?case by (simp add: w)
qed

lemma write_all_Inl:
  "write_all p i d ks tr = Inl h \<Longrightarrow>
     \<exists>ks1 k ks2 e. ks = ks1 @ k # ks2 \<and> write_ret p i k = Err e \<and>
       (\<forall>k'\<in>set ks1. \<exists>w. write_ret p i k' = Ok w) \<and>
       h = write_error p e
             (tr @ map (\<lambda>k. Write k d (write_ret p i k)) ks1 @ [Write k d (Err e)])"
proof (induction ks arbitrary: tr)
  case Nil
  then show ?case by simp
next
  case (Cons k ks)
  show ?case
  proof (cases "write_ret p i k")
    case (Err e)
    with Cons.prems have "h = write_error p e (tr @ [Write k d (Err e)])" by simp
    with Err show ?thesis by (intro exI [of _ "[]"] exI [of _ k] exI [of _ ks] exI [of _ e]) simp
  next
    case (Ok w)
    with Cons.prems have "write_all p i d ks (tr @ [Write k d (Ok w)]) = Inl h" by simp
    from Cons.IH [OF this] obtain ks1 k' ks2 e where
      "ks = ks1 @ k' # ks2" "write_ret p i k' = Err e"
      "\<forall>k'\<in>set ks1. \<exists>w. write_ret p i k' = Ok w"
      "h = write_error p e
             ((tr @ [Write k d (Ok w)]) @ map (\<lambda>k. Write k d (write_ret p i k)) ks1 @ [Write k' d (Err e)])"
      by blast
    with Ok show ?thesis
      by (intro exI [of _ "k # ks1"] exI [of _ k'] exI [of _ ks2] exI [of _ e]) simp
  qed
qed


section \<open>One step of the outer loop\<close>

lemma dests_update [simp]:
  "dests srv i j (s\<lparr>trace := tr\<rparr>) = dests srv i j s"
  "dests srv i j (s\<lparr>buf := b\<rparr>) = dests srv i j s"
  "dests srv i j (s\<lparr>inq := q\<rparr>) = dests srv i j s"
  by (simp_all add: dests_def)

lemma serve_client_Err:
  "read_ret p i = Err e \<Longrightarrow>
     serve_client p srv i s = Inl (error ''ERROR on read'' e (trace s @ [Read i MAX_BUF (Err e)]))"
  by (simp add: serve_client_def)

lemma serve_client_Ok:
  assumes rd: "read_ret p i = Ok arrived" and d: "d = take MAX_BUF (inq s i @ arrived)"
  shows "serve_client p srv i s =
     (if d = [] then
        Inr (s\<lparr>master := master s - {i}, inq := (inq s)(i := []),
               trace := trace s @ [Read i MAX_BUF (Ok 0), Close i]\<rparr>)
      else map_sum id
             (\<lambda>tr. s\<lparr>buf := d @ drop (length d) (buf s),
                       inq := (inq s)(i := drop MAX_BUF (inq s i @ arrived)), trace := tr\<rparr>)
             (write_all p i d (dests srv i 0 s) (trace s @ [Read i MAX_BUF (Ok (length d))])))"
proof -
  let ?q = "inq s i @ arrived"
  have sr: "sys_read ?q MAX_BUF (buf s) = (length d, d @ drop (length d) (buf s), drop MAX_BUF ?q)"
    unfolding d by (simp add: sys_read_def Let_def)
  have sc: "serve_client p srv i s =
      (let s1 = s\<lparr>buf := d @ drop (length d) (buf s), inq := (inq s)(i := drop MAX_BUF ?q),
                   trace := trace s @ [Read i MAX_BUF (Ok (length d))]\<rparr>
       in if length d = 0 then Inr (s1\<lparr>master := master s1 - {i}, trace := trace s1 @ [Close i]\<rparr>)
          else fanout p srv i (length d) 0 s1)"
    unfolding serve_client_def rd sysret.case sr prod.case ..
  show ?thesis
  proof (cases "d = []")
    case True
    with d have "?q = []" by (auto simp: MAX_BUF_def)
    with True sc show ?thesis by simp
  next
    case False
    with sc show ?thesis by (simp add: fanout_write_all Let_def)
  qed
qed

lemma serve_InrE:
  assumes "serve p srv rf k t = Inr t'"
  obtains (idle) "k \<notin> rf" "t' = t"
  | (accepted) c where "k = srv" "k \<in> rf" "accept_ret p = Ok c" "c < FD_SETSIZE"
      "t' = t\<lparr>master := insert c (master t), fdmax := max (fdmax t) c,
               inq := (inq t)(c := []), trace := trace t @ [Accept srv (Ok c)]\<rparr>"
  | (closed) arrived where "k \<noteq> srv" "k \<in> rf" "read_ret p k = Ok arrived"
      "inq t k @ arrived = []"
      "t' = t\<lparr>master := master t - {k}, inq := (inq t)(k := []),
               trace := trace t @ [Read k MAX_BUF (Ok 0), Close k]\<rparr>"
  | (relayed) arrived d where "k \<noteq> srv" "k \<in> rf" "read_ret p k = Ok arrived"
      "d = take MAX_BUF (inq t k @ arrived)" "d \<noteq> []"
      "\<forall>j\<in>set (dests srv k 0 t). \<exists>w. write_ret p k j = Ok w"
      "t' = t\<lparr>buf := d @ drop (length d) (buf t),
               inq := (inq t)(k := drop MAX_BUF (inq t k @ arrived)),
               trace := trace t @ Read k MAX_BUF (Ok (length d))
                          # map (\<lambda>j. Write j d (write_ret p k j)) (dests srv k 0 t)\<rparr>"
proof (cases "k \<in> rf")
  case False
  with assms have "t' = t" by (simp add: serve_def)
  with False show ?thesis by (rule idle)
next
  case ready: True
  show ?thesis
  proof (cases "k = srv")
    case True
    with ready assms obtain c where "accept_ret p = Ok c" "c < FD_SETSIZE"
      and "t' = t\<lparr>master := insert c (master t), fdmax := max (fdmax t) c,
                  inq := (inq t)(c := []), trace := trace t @ [Accept srv (Ok c)]\<rparr>"
      by (auto simp: serve_def accept_client_def init_cli_def max_def
          split: sysret.splits if_splits)
    with True ready show ?thesis by (intro accepted)
  next
    case False
    with ready assms have sc: "serve_client p srv k t = Inr t'" by (simp add: serve_def)
    then obtain arrived where rd: "read_ret p k = Ok arrived"
      by (cases "read_ret p k") (auto simp: serve_client_Err)
    define d where "d = take MAX_BUF (inq t k @ arrived)"
    note eq = serve_client_Ok [OF rd d_def, of srv]
    show ?thesis
    proof (cases "d = []")
      case True
      then have e: "inq t k @ arrived = []" by (auto simp: d_def MAX_BUF_def)
      from sc True have "t' = t\<lparr>master := master t - {k}, inq := (inq t)(k := []),
          trace := trace t @ [Read k MAX_BUF (Ok 0), Close k]\<rparr>"
        by (simp add: eq)
      with False ready rd e show ?thesis by (intro closed)
    next
      case ne: False
      let ?tr = "trace t @ [Read k MAX_BUF (Ok (length d))]"
      from sc ne obtain tr where
        wa: "write_all p k d (dests srv k 0 t) ?tr = Inr tr"
        and t': "t' = t\<lparr>buf := d @ drop (length d) (buf t),
               inq := (inq t)(k := drop MAX_BUF (inq t k @ arrived)), trace := tr\<rparr>"
        by (cases "write_all p k d (dests srv k 0 t) ?tr") (auto simp: eq)
      from write_all_Inr [OF wa] t' have
        "\<forall>j\<in>set (dests srv k 0 t). \<exists>w. write_ret p k j = Ok w"
        "t' = t\<lparr>buf := d @ drop (length d) (buf t),
               inq := (inq t)(k := drop MAX_BUF (inq t k @ arrived)),
               trace := trace t @ Read k MAX_BUF (Ok (length d))
                          # map (\<lambda>j. Write j d (write_ret p k j)) (dests srv k 0 t)\<rparr>"
        by simp_all
      with False ready rd ne d_def show ?thesis by (intro relayed [of arrived d])
    qed
  qed
qed

lemma serve_InlE:
  assumes "serve p srv rf k t = Inl h"
  obtains (accept_failed) e where "k = srv" "k \<in> rf" "accept_ret p = Err e"
      "h = error ''ERROR on accept'' e (trace t @ [Accept srv (Err e)])"
  | (fd_set_overrun) c where "k = srv" "k \<in> rf" "accept_ret p = Ok c" "FD_SETSIZE \<le> c"
      "h = Undefined_Behaviour (trace t @ [Accept srv (Ok c)])"
  | (read_failed) e where "k \<noteq> srv" "k \<in> rf" "read_ret p k = Err e"
      "h = error ''ERROR on read'' e (trace t @ [Read k MAX_BUF (Err e)])"
  | (write_failed) arrived d ks1 j ks2 e where "k \<noteq> srv" "k \<in> rf"
      "read_ret p k = Ok arrived" "d = take MAX_BUF (inq t k @ arrived)" "d \<noteq> []"
      "dests srv k 0 t = ks1 @ j # ks2" "write_ret p k j = Err e"
      "\<forall>j'\<in>set ks1. \<exists>w. write_ret p k j' = Ok w"
      "h = write_error p e
             (trace t @ Read k MAX_BUF (Ok (length d))
                # map (\<lambda>j. Write j d (write_ret p k j)) ks1 @ [Write j d (Err e)])"
proof (cases "k = srv")
  case True
  with assms have ready: "k \<in> rf" and ac: "accept_client p srv t = Inl h"
    by (auto simp: serve_def split: if_splits)
  show ?thesis
  proof (cases "accept_ret p")
    case (Err e)
    with ac have "h = error ''ERROR on accept'' e (trace t @ [Accept srv (Err e)])"
      by (simp add: accept_client_def init_cli_def)
    with True ready Err show ?thesis by (intro accept_failed)
  next
    case (Ok c)
    with ac have "FD_SETSIZE \<le> c" "h = Undefined_Behaviour (trace t @ [Accept srv (Ok c)])"
      by (auto simp: accept_client_def init_cli_def split: if_splits)
    with True ready Ok show ?thesis by (intro fd_set_overrun)
  qed
next
  case False
  with assms have ready: "k \<in> rf" and sc: "serve_client p srv k t = Inl h"
    by (auto simp: serve_def split: if_splits)
  show ?thesis
  proof (cases "read_ret p k")
    case (Err e)
    with sc have "h = error ''ERROR on read'' e (trace t @ [Read k MAX_BUF (Err e)])"
      by (simp add: serve_client_Err)
    with False ready Err show ?thesis by (intro read_failed)
  next
    case (Ok arrived)
    define d where "d = take MAX_BUF (inq t k @ arrived)"
    note eq = serve_client_Ok [OF Ok d_def, of srv]
    let ?tr = "trace t @ [Read k MAX_BUF (Ok (length d))]"
    from sc have ne: "d \<noteq> []" by (auto simp: eq split: if_splits)
    with sc have wa: "write_all p k d (dests srv k 0 t) ?tr = Inl h"
      by (cases "write_all p k d (dests srv k 0 t) ?tr") (auto simp: eq)
    from write_all_Inl [OF wa] obtain ks1 j ks2 e where
      "dests srv k 0 t = ks1 @ j # ks2" "write_ret p k j = Err e"
      "\<forall>j'\<in>set ks1. \<exists>w. write_ret p k j' = Ok w"
      "h = write_error p e
             (trace t @ Read k MAX_BUF (Ok (length d))
                # map (\<lambda>j. Write j d (write_ret p k j)) ks1 @ [Write j d (Err e)])"
      by auto
    with False ready Ok ne d_def show ?thesis by (intro write_failed [of arrived d ks1 j ks2 e])
  qed
qed

section \<open>Invariants of the loops\<close>

text \<open>
  A property that every step of the outer loop keeps holds after the loop, and a run
  that ends does so in one step, from a state that has the property.
\<close>

lemma dispatch_Inr_invariant:
  assumes "dispatch p srv rf i s = Inr s'" and "P s"
    and step: "\<And>k t t'. P t \<Longrightarrow> serve p srv rf k t = Inr t' \<Longrightarrow> P t'"
  shows "P s'"
  using assms
proof (induction p srv rf i s rule: dispatch.induct)
  case (1 p srv rf i s)
  show ?case
  proof (cases "i \<le> fdmax s")
    case False
    with "1.prems" show ?thesis by (simp add: dispatch.simps)
  next
    case True
    with "1.prems"(1) obtain t where t: "serve p srv rf i s = Inr t"
      and r: "dispatch p srv rf (Suc i) t = Inr s'"
      by (subst (asm) dispatch.simps) (auto split: sum.splits)
    from "1.prems"(3) [OF "1.prems"(2) t] have "P t" .
    from "1.IH" [OF True t r this "1.prems"(3)] show ?thesis .
  qed
qed

lemma dispatch_Inl_origin:
  assumes "dispatch p srv rf i s = Inl h" and "P s"
    and step: "\<And>k t t'. P t \<Longrightarrow> serve p srv rf k t = Inr t' \<Longrightarrow> P t'"
  shows "\<exists>k t. P t \<and> serve p srv rf k t = Inl h"
  using assms
proof (induction p srv rf i s rule: dispatch.induct)
  case (1 p srv rf i s)
  show ?case
  proof (cases "i \<le> fdmax s")
    case False
    with "1.prems" show ?thesis by (simp add: dispatch.simps)
  next
    case True
    show ?thesis
    proof (cases "serve p srv rf i s")
      case (Inl h')
      with True "1.prems"(1) have "h' = h" by (subst (asm) dispatch.simps) simp
      with Inl "1.prems"(2) show ?thesis by blast
    next
      case (Inr t)
      with True "1.prems"(1) have r: "dispatch p srv rf (Suc i) t = Inl h"
        by (subst (asm) dispatch.simps) simp
      from "1.prems"(3) [OF "1.prems"(2) Inr] have "P t" .
      from "1.IH" [OF True Inr r this "1.prems"(3)] show ?thesis .
    qed
  qed
qed

lemma raw_pass_Inr_invariant:
  assumes "raw_pass srv p s = Inr s'" and "P s"
    and sel: "\<And>t n. P t \<Longrightarrow> P (t\<lparr>trace := trace t @ [Select (Suc (fdmax t)) (master t) (Ok n)]\<rparr>)"
    and step: "\<And>rf k t t'. P t \<Longrightarrow> serve p srv rf k t = Inr t' \<Longrightarrow> P t'"
  shows "P s'"
proof -
  from assms(1) obtain n where
    d: "dispatch p srv (sys_select (Suc (fdmax s)) (master s) (select_fds p)) 0
          (s\<lparr>trace := trace s @ [Select (Suc (fdmax s)) (master s) (Ok n)]\<rparr>) = Inr s'"
    by (auto simp: raw_pass_def Let_def split: sysret.splits)
  show ?thesis
    by (rule dispatch_Inr_invariant [where P = P, OF d sel [OF assms(2)]]) (rule step)
qed

lemma raw_pass_Inl_origin:
  assumes "raw_pass srv p s = Inl h" and "P s"
    and sel: "\<And>t n. P t \<Longrightarrow> P (t\<lparr>trace := trace t @ [Select (Suc (fdmax t)) (master t) (Ok n)]\<rparr>)"
    and step: "\<And>rf k t t'. P t \<Longrightarrow> serve p srv rf k t = Inr t' \<Longrightarrow> P t'"
  shows "(\<exists>e. select_ret p = Err e \<and>
            h = error ''ERROR on select'' e (trace s @ [Select (Suc (fdmax s)) (master s) (Err e)]))
         \<or> (\<exists>rf k t. P t \<and> serve p srv rf k t = Inl h)"
proof (cases "select_ret p")
  case (Err e)
  with assms(1) show ?thesis by (simp add: raw_pass_def Let_def)
next
  case (Ok n)
  with assms(1) have
    d: "dispatch p srv (sys_select (Suc (fdmax s)) (master s) (select_fds p)) 0
          (s\<lparr>trace := trace s @ [Select (Suc (fdmax s)) (master s) (Ok n)]\<rparr>) = Inl h"
    by (simp add: raw_pass_def Let_def)
  have "\<exists>k t. P t \<and>
          serve p srv (sys_select (Suc (fdmax s)) (master s) (select_fds p)) k t = Inl h"
    by (rule dispatch_Inl_origin [where P = P, OF d sel [OF assms(2)]]) (rule step)
  then show ?thesis by blast
qed

lemma raw_loop_Inr_invariant:
  assumes "raw_loop srv ps s = Inr s'" and "P s"
    and sel: "\<And>t n. P t \<Longrightarrow> P (t\<lparr>trace := trace t @ [Select (Suc (fdmax t)) (master t) (Ok n)]\<rparr>)"
    and step: "\<And>p rf k t t'. p \<in> set ps \<Longrightarrow> P t \<Longrightarrow> serve p srv rf k t = Inr t' \<Longrightarrow> P t'"
  shows "P s'"
  using assms(1,2,4)
proof (induction ps arbitrary: s)
  case Nil
  then show ?case by simp
next
  case (Cons p ps)
  from Cons.prems(1) obtain t where t: "raw_pass srv p s = Inr t" and r: "raw_loop srv ps t = Inr s'"
    by (auto split: sum.splits)
  have st: "\<And>rf k t t'. P t \<Longrightarrow> serve p srv rf k t = Inr t' \<Longrightarrow> P t'"
    by (rule Cons.prems(3) [of p]) auto
  have pt: "P t"
    by (rule raw_pass_Inr_invariant [where P = P, OF t Cons.prems(2) sel st])
  show ?case
  proof (rule Cons.IH [OF r pt])
    fix q rf k u u'
    assume "q \<in> set ps" "P u" "serve q srv rf k u = Inr u'"
    then show "P u'" using Cons.prems(3) [of q u rf k u'] by simp
  qed
qed

lemma raw_loop_Inl_origin:
  assumes "raw_loop srv ps s = Inl h" and "P s"
    and sel: "\<And>t n. P t \<Longrightarrow> P (t\<lparr>trace := trace t @ [Select (Suc (fdmax t)) (master t) (Ok n)]\<rparr>)"
    and step: "\<And>p rf k t t'. p \<in> set ps \<Longrightarrow> P t \<Longrightarrow> serve p srv rf k t = Inr t' \<Longrightarrow> P t'"
  shows "\<exists>p t. p \<in> set ps \<and> P t \<and>
           ((\<exists>e. select_ret p = Err e \<and>
               h = error ''ERROR on select'' e (trace t @ [Select (Suc (fdmax t)) (master t) (Err e)]))
            \<or> (\<exists>rf k. serve p srv rf k t = Inl h))"
  using assms(1,2,4)
proof (induction ps arbitrary: s)
  case Nil
  then show ?case by simp
next
  case (Cons p ps)
  have st: "\<And>rf k t t'. P t \<Longrightarrow> serve p srv rf k t = Inr t' \<Longrightarrow> P t'"
    by (rule Cons.prems(3) [of p]) auto
  show ?case
  proof (cases "raw_pass srv p s")
    case (Inl h')
    with Cons.prems(1) have "h' = h" by simp
    with Inl raw_pass_Inl_origin [where P = P, OF _ Cons.prems(2) sel st, of srv p h]
    have "(\<exists>e. select_ret p = Err e \<and>
            h = error ''ERROR on select'' e (trace s @ [Select (Suc (fdmax s)) (master s) (Err e)]))
         \<or> (\<exists>rf k t. P t \<and> serve p srv rf k t = Inl h)"
      by simp
    then show ?thesis
    proof
      assume "\<exists>e. select_ret p = Err e \<and>
            h = error ''ERROR on select'' e (trace s @ [Select (Suc (fdmax s)) (master s) (Err e)])"
      with Cons.prems(2) show ?thesis by (intro exI [of _ p] exI [of _ s]) simp
    next
      assume "\<exists>rf k t. P t \<and> serve p srv rf k t = Inl h"
      then obtain rf k t where "P t" "serve p srv rf k t = Inl h" by blast
      then show ?thesis by (intro exI [of _ p] exI [of _ t]) auto
    qed
  next
    case (Inr t)
    with Cons.prems(1) have r: "raw_loop srv ps t = Inl h" by simp
    have pt: "P t"
      by (rule raw_pass_Inr_invariant [where P = P, OF Inr Cons.prems(2) sel st])
    have "\<exists>p t. p \<in> set ps \<and> P t \<and>
           ((\<exists>e. select_ret p = Err e \<and>
               h = error ''ERROR on select'' e (trace t @ [Select (Suc (fdmax t)) (master t) (Err e)]))
            \<or> (\<exists>rf k. serve p srv rf k t = Inl h))"
    proof (rule Cons.IH [OF r pt])
      fix q rf k u u'
      assume "q \<in> set ps" "P u" "serve q srv rf k u = Inr u'"
      then show "P u'" using Cons.prems(3) [of q u rf k u'] by simp
    qed
    then obtain q u where q: "q \<in> set ps" "P u"
      "(\<exists>e. select_ret q = Err e \<and>
               h = error ''ERROR on select'' e (trace u @ [Select (Suc (fdmax u)) (master u) (Err e)]))
            \<or> (\<exists>rf k. serve q srv rf k u = Inl h)"
      by blast
    then show ?thesis by (intro exI [of _ q] exI [of _ u]) simp
  qed
qed

text \<open>
  The outer loop passes over descriptors that are not ready. With the ready set cut down
  to the descriptors below \<open>i\<close> it is the loop up to \<open>i\<close>: the whole loop is that,
  followed by the loop from \<open>i\<close> on.
\<close>

lemma dispatch_idle:
  "(\<forall>k. a \<le> k \<and> k \<le> fdmax s \<longrightarrow> k \<notin> rf) \<Longrightarrow> dispatch p srv rf a s = Inr s"
proof (induction "Suc (fdmax s) - a" arbitrary: a)
  case 0
  then show ?case by (simp add: dispatch.simps [of p srv rf a])
next
  case (Suc n)
  then have le: "a \<le> fdmax s" and n: "n = Suc (fdmax s) - Suc a" by simp_all
  from Suc.prems le have "a \<notin> rf" by simp
  then have sv: "serve p srv rf a s = Inr s" by (simp add: serve_def)
  have "dispatch p srv rf (Suc a) s = Inr s"
    by (rule Suc.hyps(1) [OF n]) (use Suc.prems in auto)
  with le sv show ?case by (simp add: dispatch.simps [of p srv rf a])
qed

lemma dispatch_skip_to:
  "a \<le> i \<Longrightarrow> i \<le> fdmax s \<Longrightarrow> (\<forall>k. a \<le> k \<and> k < i \<longrightarrow> k \<notin> rf) \<Longrightarrow>
     dispatch p srv rf a s = dispatch p srv rf i s"
proof (induction "i - a" arbitrary: a)
  case 0
  then show ?case by simp
next
  case (Suc n)
  then have lt: "a < i" and n: "n = i - Suc a" by simp_all
  with Suc.prems have "a \<notin> rf" "a \<le> fdmax s" by simp_all
  then have "dispatch p srv rf a s = dispatch p srv rf (Suc a) s"
    by (simp add: dispatch.simps [of p srv rf a] serve_def)
  also have "dispatch p srv rf (Suc a) s = dispatch p srv rf i s"
    by (rule Suc.hyps(1) [OF n]) (use Suc.prems lt in auto)
  finally show ?case .
qed


lemma dispatch_before:
  "j \<le> i \<Longrightarrow>
     dispatch p srv rf j s =
       (case dispatch p srv (rf \<inter> {..<i}) j s of Inl h \<Rightarrow> Inl h | Inr t \<Rightarrow> dispatch p srv rf i t)"
proof (induction p srv rf j s rule: dispatch.induct)
  case (1 p srv rf j s)
  show ?case
  proof (cases "j = i")
    case True
    have "dispatch p srv (rf \<inter> {..<i}) i s = Inr s" by (rule dispatch_idle) auto
    with True show ?thesis by simp
  next
    case False
    with "1.prems" have lt: "j < i" by simp
    show ?thesis
    proof (cases "j \<le> fdmax s")
      case False
      with lt show ?thesis
        by (simp add: dispatch.simps [of p srv rf j s] dispatch.simps [of p srv "rf \<inter> {..<i}" j s]
            dispatch.simps [of p srv rf i s])
    next
      case True
      have sv: "serve p srv (rf \<inter> {..<i}) j s = serve p srv rf j s"
        using lt by (simp add: serve_def)
      show ?thesis
      proof (cases "serve p srv rf j s")
        case (Inl h)
        with True sv show ?thesis
          by (simp add: dispatch.simps [of p srv rf j s] dispatch.simps [of p srv "rf \<inter> {..<i}" j s])
      next
        case (Inr s')
        from lt have "Suc j \<le> i" by simp
        from "1.IH" [OF True Inr this] True sv Inr show ?thesis
          by (simp add: dispatch.simps [of p srv rf j s] dispatch.simps [of p srv "rf \<inter> {..<i}" j s])
      qed
    qed
  qed
qed

lemma closed_after_append:
  "closed_after C (xs @ ys) = closed_after (closed_after C xs) ys"
  by (induction C xs rule: closed_after.induct) simp_all

lemma no_write_after_close_append:
  "no_write_after_close C (xs @ ys) =
     (no_write_after_close C xs \<and> no_write_after_close (closed_after C xs) ys)"
  by (induction C xs rule: closed_after.induct) simp_all

lemma closed_after_writes [simp]:
  "closed_after C (map (\<lambda>j. Write j d (f j)) ks) = C"
  by (induction ks) simp_all

lemma no_write_after_close_writes [simp]:
  "no_write_after_close C (map (\<lambda>j. Write j d (f j)) ks) = (\<forall>j\<in>set ks. j \<notin> C)"
  by (induction ks) auto

lemma set_dests: "set (dests srv i j s) = {k. j \<le> k \<and> k \<le> fdmax s \<and> k \<in> master s \<and> k \<noteq> srv \<and> k \<noteq> i}"
  by (auto simp: dests_def)

lemma serve_fd_inv:
  assumes "serve p srv rf k t = Inr t'" and "srv \<in> master t" and "\<forall>fd\<in>master t. fd \<le> fdmax t"
  shows "srv \<in> master t' \<and> (\<forall>fd\<in>master t'. fd \<le> fdmax t')"
  using assms(1)
proof (cases rule: serve_InrE)
  case idle
  with assms show ?thesis by simp
next
  case (accepted c)
  with assms show ?thesis by (auto simp: max_def)
next
  case (closed arrived)
  with assms show ?thesis by auto
next
  case (relayed arrived d)
  with assms show ?thesis by simp
qed

lemma serve_fdmax_mono:
  assumes "serve p srv rf k t = Inr t'"
  shows "fdmax t \<le> fdmax t'"
  using assms by (cases rule: serve_InrE) simp_all

section \<open>Evaluating concrete runs\<close>

lemma map_sum_InrD: "map_sum f g x = Inr y \<Longrightarrow> \<exists>s. x = Inr s \<and> g s = y"
  by (cases x) auto

lemma map_sum_InlD: "map_sum id g x = Inl h \<Longrightarrow> x = Inl h"
  by (cases x) auto

lemma scenario_run:
  "\<exists>s. raw_loop 3 scenario (raw_init 3 ''xyz'' []) = Inr s \<and> master s = {3, 4, 5} \<and> fdmax s = 6"
proof -
  have "map_sum id (\<lambda>s. (master s, fdmax s)) (raw_loop 3 scenario (raw_init 3 ''xyz'' []))
        = Inr ({3, 4, 5}, 6)"
    by code_simp
  from map_sum_InrD [OF this] show ?thesis by auto
qed

section \<open>The descriptor set and its bound\<close>

lemma raw_loop_fd_inv:
  assumes "raw_loop srv ps s = Inr s'" and "srv \<in> master s" and "\<forall>fd\<in>master s. fd \<le> fdmax s"
  shows "srv \<in> master s' \<and> (\<forall>fd\<in>master s'. fd \<le> fdmax s')"
  by (rule raw_loop_Inr_invariant
        [where P = "\<lambda>t. srv \<in> master t \<and> (\<forall>fd\<in>master t. fd \<le> fdmax t)", OF assms(1)])
    (use assms(2,3) in \<open>auto dest: serve_fd_inv\<close>)

lemma raw_loop_fdmax_mono:
  assumes "raw_loop srv ps s = Inr s'"
  shows "fdmax s \<le> fdmax s'"
proof (rule raw_loop_Inr_invariant [where P = "\<lambda>t. fdmax s \<le> fdmax t", OF assms])
  show "fdmax s \<le> fdmax s" by simp
next
  fix t n
  assume "fdmax s \<le> fdmax t"
  then show "fdmax s \<le> fdmax (t\<lparr>trace := trace t @ [Select (Suc (fdmax t)) (master t) (Ok n)]\<rparr>)"
    by simp
next
  fix p rf k t t'
  assume "fdmax s \<le> fdmax t" "serve p srv rf k t = Inr t'"
  then show "fdmax s \<le> fdmax t'" using serve_fdmax_mono [of p srv rf k t t'] by simp
qed

lemma accept_client_fdmax:
  "accept_client p srv s = Inr t \<Longrightarrow>
     \<exists>c. accept_ret p = Ok c \<and> master t = insert c (master s) \<and> fdmax t = max (fdmax s) c"
  by (auto simp: accept_client_def init_cli_def max_def split: sysret.splits if_splits)

lemma serve_client_fdmax:
  assumes "serve_client p srv i s = Inr t"
  shows "fdmax t = fdmax s"
proof -
  from assms obtain arrived where rd: "read_ret p i = Ok arrived"
    by (cases "read_ret p i") (auto simp: serve_client_Err)
  define d where "d = take MAX_BUF (inq s i @ arrived)"
  note eq = serve_client_Ok [OF rd d_def, of srv]
  show ?thesis
  proof (cases "d = []")
    case True
    with assms show ?thesis by (auto simp: eq)
  next
    case False
    with assms show ?thesis
      by (cases "write_all p i d (dests srv i 0 s) (trace s @ [Read i MAX_BUF (Ok (length d))])")
        (auto simp: eq)
  qed
qed

lemma raw_loop_append:
  "raw_loop srv (ps @ qs) s =
     (case raw_loop srv ps s of Inl h \<Rightarrow> Inl h | Inr t \<Rightarrow> raw_loop srv qs t)"
  by (induction ps arbitrary: s) (simp_all split: sum.splits)

lemma scenario_then_connect:
  "\<exists>s'. raw_loop 3 (scenario @ [pass_connect 3 9]) (raw_init 3 ''xyz'' []) = Inr s' \<and> fdmax s' = 9"
proof -
  have "map_sum id fdmax (raw_loop 3 (scenario @ [pass_connect 3 9]) (raw_init 3 ''xyz'' [])) = Inr 9"
    by code_simp
  from map_sum_InrD [OF this] show ?thesis .
qed

text \<open>
  C9. At the top of every iteration of the loop, that is in every state \<open>s\<close> the loop
  reaches from its initial state: the listening descriptor is in \<open>master\<close>, every
  descriptor in \<open>master\<close> is at most \<open>fdmax\<close>, and \<open>fdmax\<close> is not smaller in any later
  state; an accept sets it to the larger of itself and the new descriptor, and serving
  a client, which is where a client is removed, leaves it as it is. So the scans over
  \<open>0..fdmax\<close> visit every descriptor in \<open>master\<close>, and \<open>select\<close> with \<open>fdmax + 1\<close> cuts
  none of them off.
\<close>

theorem fdmax_bounds_master:
  assumes "raw_loop srv ps (raw_init srv buf0 tr) = Inr s"
  shows "srv \<in> master s \<and> (\<forall>fd\<in>master s. fd \<le> fdmax s)
    \<and> (\<forall>qs s'. raw_loop srv qs s = Inr s' \<longrightarrow> fdmax s \<le> fdmax s')
    \<and> (\<forall>p t. accept_client p srv s = Inr t \<longrightarrow>
          (\<exists>c. accept_ret p = Ok c \<and> master t = insert c (master s) \<and> fdmax t = max (fdmax s) c))
    \<and> (\<forall>p i t. serve_client p srv i s = Inr t \<longrightarrow> fdmax t = fdmax s)
    \<and> master s \<subseteq> set [0..<Suc (fdmax s)]
    \<and> (\<forall>readable. sys_select (fdmax s + 1) (master s) readable = master s \<inter> readable)"
proof -
  have inv: "srv \<in> master s \<and> (\<forall>fd\<in>master s. fd \<le> fdmax s)"
    by (rule raw_loop_fd_inv [OF assms]) (simp_all add: raw_init_def)
  then have cover: "master s \<subseteq> set [0..<Suc (fdmax s)]" by auto
  with inv have sel: "sys_select (fdmax s + 1) (master s) readable = master s \<inter> readable" for readable
    by (auto simp: sys_select_def)
  from inv cover sel show ?thesis
    by (auto dest: raw_loop_fdmax_mono accept_client_fdmax serve_client_fdmax)
qed

theorem fdmax_bounds_master_witness:
  "\<exists>s. raw_loop 3 scenario (raw_init 3 ''xyz'' []) = Inr s \<and> fdmax s = 6 \<and> master s = {3, 4, 5}
     \<and> 3 \<in> master s \<and> master s \<subseteq> set [0..<Suc (fdmax s)]
     \<and> (\<exists>s'. raw_loop 3 [pass_connect 3 9] s = Inr s' \<and> fdmax s' = 9 \<and> fdmax s \<le> fdmax s')
     \<and> (\<exists>t. accept_client (pass_connect 3 9) 3 s = Inr t \<and> fdmax t = max (fdmax s) 9)"
proof -
  from scenario_run obtain s where run: "raw_loop 3 scenario (raw_init 3 ''xyz'' []) = Inr s"
    and s: "master s = {3, 4, 5}" "fdmax s = 6"
    by blast
  note inst = fdmax_bounds_master [OF run]
  note a = inst [THEN conjunct1]
    and mono = inst [THEN conjunct2, THEN conjunct2, THEN conjunct1, rule_format]
    and raised = inst [THEN conjunct2, THEN conjunct2, THEN conjunct2, THEN conjunct1, rule_format]
    and b = inst [THEN conjunct2, THEN conjunct2, THEN conjunct2, THEN conjunct2, THEN conjunct2,
                  THEN conjunct1]
  from scenario_then_connect obtain s' where
    "raw_loop 3 (scenario @ [pass_connect 3 9]) (raw_init 3 ''xyz'' []) = Inr s'" and s': "fdmax s' = 9"
    by blast
  with run have more: "raw_loop 3 [pass_connect 3 9] s = Inr s'"
    by (simp add: raw_loop_append del: raw_loop.simps)
  from mono [OF more] have c: "fdmax s \<le> fdmax s'" .
  from more s' c have later: "\<exists>s'. raw_loop 3 [pass_connect 3 9] s = Inr s' \<and> fdmax s' = 9 \<and>
      fdmax s \<le> fdmax s'"
    by (intro exI [of _ s'] conjI)
  let ?t = "s\<lparr>master := insert 9 (master s), fdmax := (if 9 > fdmax s then 9 else fdmax s),
             inq := (inq s)(9 := []), trace := trace s @ [Accept 3 (Ok 9)]\<rparr>"
  have acc: "accept_client (pass_connect 3 9) 3 s = Inr ?t"
    by (simp add: accept_client_def init_cli_def pass_connect_def FD_SETSIZE_def)
  from raised [OF acc] obtain c where "accept_ret (pass_connect 3 9) = Ok c"
    "fdmax ?t = max (fdmax s) c"
    by (elim exE conjE)
  then have "fdmax ?t = max (fdmax s) 9" by (simp add: pass_connect_def)
  with acc have d: "\<exists>t. accept_client (pass_connect 3 9) 3 s = Inr t \<and> fdmax t = max (fdmax s) 9"
    by (intro exI [of _ ?t] conjI)
  from run s a b later d show ?thesis by blast
qed

section \<open>The listening socket stays, closed clients are left alone\<close>

lemma kept_select:
  "kept srv tr t \<Longrightarrow> kept srv tr (t\<lparr>trace := trace t @ [Select n fds r]\<rparr>)"
  by (simp add: kept_def no_write_after_close_append closed_after_append)

lemma kept_serve:
  assumes "serve p srv rf k t = Inr t'" and "kept srv tr t"
  shows "kept srv tr t'"
  using assms(1)
proof (cases rule: serve_InrE)
  case idle
  with assms(2) show ?thesis by simp
next
  case (accepted c)
  with assms(2) show ?thesis
    by (auto simp: kept_def no_write_after_close_append closed_after_append)
next
  case (closed arrived)
  with assms(2) show ?thesis
    by (auto simp: kept_def no_write_after_close_append closed_after_append)
next
  case (relayed arrived d)
  with assms(2) show ?thesis
    by (auto simp: kept_def no_write_after_close_append closed_after_append set_dests)
qed

lemma kept_halt:
  assumes "serve p srv rf k t = Inl h" and "kept srv tr t"
  shows "Close srv \<notin> set (drop (length tr) (htrace h)) \<and>
         no_write_after_close {} (drop (length tr) (htrace h))"
  using assms(1)
proof (cases rule: serve_InlE)
  case (accept_failed e)
  with assms(2) show ?thesis
    by (auto simp: kept_def error_def no_write_after_close_append closed_after_append)
next
  case (fd_set_overrun c)
  with assms(2) show ?thesis
    by (auto simp: kept_def no_write_after_close_append closed_after_append)
next
  case (read_failed e)
  with assms(2) show ?thesis
    by (auto simp: kept_def error_def no_write_after_close_append closed_after_append)
next
  case (write_failed arrived d ks1 j ks2 e)
  from write_failed(6) have "set ks1 \<subseteq> set (dests srv k 0 t)" "j \<in> set (dests srv k 0 t)"
    by auto
  then have "set ks1 \<subseteq> master t" "j \<in> master t" by (auto simp: set_dests)
  with write_failed(9) assms(2) show ?thesis
    by (auto simp: kept_def htrace_write_error no_write_after_close_append closed_after_append)
qed

text \<open>
  C5. In every run of the loop from its initial state, whatever the kernel answers: the
  listening descriptor is in \<open>master\<close> in every state the loop reaches and is never
  closed; in every such state no descriptor that was closed and not accepted again is in
  \<open>master\<close>; and no \<open>write\<close> goes to a descriptor after its \<open>close\<close> unless an \<open>accept\<close>
  returned it in between. The step that closes a descriptor is the one that removes it:
  after a step of the outer loop that issued \<open>close(fd)\<close>, \<open>fd\<close> is the client that was
  served, not the listening socket, and is no longer in \<open>master\<close>.
\<close>

theorem listener_stays_closed_clients_leave:
  "(case raw_loop srv ps (raw_init srv buf0 tr) of
      Inl h \<Rightarrow> True
    | Inr s \<Rightarrow> srv \<in> master s \<and> closed_after {} (since tr (Inr s)) \<inter> master s = {})
   \<and> Close srv \<notin> set (since tr (raw_loop srv ps (raw_init srv buf0 tr)))
   \<and> no_write_after_close {} (since tr (raw_loop srv ps (raw_init srv buf0 tr)))
   \<and> (\<forall>p rf i t t' fd. serve p srv rf i t = Inr t' \<and> Close fd \<in> set (drop (length (trace t)) (trace t'))
         \<longrightarrow> fd = i \<and> fd \<noteq> srv \<and> fd \<notin> master t' \<and> master t' = master t - {fd})"
proof -
  let ?s0 = "raw_init srv buf0 tr"
  have k0: "kept srv tr ?s0" by (simp add: kept_def raw_init_def)
  have run: "(case raw_loop srv ps ?s0 of
      Inl h \<Rightarrow> True
    | Inr s \<Rightarrow> srv \<in> master s \<and> closed_after {} (since tr (Inr s)) \<inter> master s = {})
   \<and> Close srv \<notin> set (since tr (raw_loop srv ps ?s0))
   \<and> no_write_after_close {} (since tr (raw_loop srv ps ?s0))"
  proof (cases "raw_loop srv ps ?s0")
    case (Inr s)
    have "kept srv tr s"
      by (rule raw_loop_Inr_invariant [where P = "kept srv tr", OF Inr k0])
        (auto intro: kept_select kept_serve)
    with Inr show ?thesis by (simp add: kept_def since_def events_def)
  next
    case (Inl h)
    have "\<exists>p t. p \<in> set ps \<and> kept srv tr t \<and>
           ((\<exists>e. select_ret p = Err e \<and>
               h = error ''ERROR on select'' e (trace t @ [Select (Suc (fdmax t)) (master t) (Err e)]))
            \<or> (\<exists>rf k. serve p srv rf k t = Inl h))"
      by (rule raw_loop_Inl_origin [where P = "kept srv tr", OF Inl k0])
        (auto intro: kept_select kept_serve)
    then obtain p t where t: "kept srv tr t"
      and h: "(\<exists>e. select_ret p = Err e \<and>
               h = error ''ERROR on select'' e (trace t @ [Select (Suc (fdmax t)) (master t) (Err e)]))
            \<or> (\<exists>rf k. serve p srv rf k t = Inl h)"
      by blast
    from h have "Close srv \<notin> set (drop (length tr) (htrace h)) \<and>
         no_write_after_close {} (drop (length tr) (htrace h))"
    proof
      assume "\<exists>e. select_ret p = Err e \<and>
               h = error ''ERROR on select'' e (trace t @ [Select (Suc (fdmax t)) (master t) (Err e)])"
      with t show ?thesis
        by (auto simp: kept_def error_def no_write_after_close_append closed_after_append)
    next
      assume "\<exists>rf k. serve p srv rf k t = Inl h"
      with t show ?thesis by (auto dest: kept_halt)
    qed
    with Inl show ?thesis by (simp add: since_def events_def)
  qed
  have close: "fd = i \<and> fd \<noteq> srv \<and> fd \<notin> master t' \<and> master t' = master t - {fd}"
    if "serve p srv rf i t = Inr t'" "Close fd \<in> set (drop (length (trace t)) (trace t'))"
    for p rf i t t' fd
    using that by (cases rule: serve_InrE) auto
  from run close show ?thesis by blast
qed

theorem listener_stays_closed_clients_leave_witness:
  "Close 3 \<notin> set (since [] (raw_loop 3 scenario (raw_init 3 ''xyz'' [])))
   \<and> no_write_after_close {} (since [] (raw_loop 3 scenario (raw_init 3 ''xyz'' [])))
   \<and> Close 6 \<in> set (since [] (raw_loop 3 scenario (raw_init 3 ''xyz'' [])))
   \<and> closed_after {} (since [] (raw_loop 3 scenario (raw_init 3 ''xyz'' []))) = {6}"
proof -
  have "Close 6 \<in> set (since [] (raw_loop 3 scenario (raw_init 3 ''xyz'' [])))"
    by code_simp
  moreover have "closed_after {} (since [] (raw_loop 3 scenario (raw_init 3 ''xyz'' []))) = {6}"
    by code_simp
  ultimately show ?thesis
    using listener_stays_closed_clients_leave
      [where srv = 3 and ps = scenario and ?buf0.0 = "''xyz''" and tr = "[]"]
    by blast
qed

section \<open>What one read is relayed to\<close>

lemma writes_of_append: "writes_of (xs @ ys) = writes_of xs @ writes_of ys"
  by (induction xs rule: writes_of.induct) simp_all

lemma writes_of_map_Write [simp]:
  "writes_of (map (\<lambda>j. Write j d (f j)) ks) = map (\<lambda>j. (j, d)) ks"
  by (induction ks) simp_all

lemma dests_sorted_list:
  assumes "\<forall>fd\<in>master s. fd \<le> fdmax s"
  shows "dests srv i 0 s = sorted_list_of_set (master s - {srv, i})"
proof -
  have "sorted (dests srv i 0 s)" "distinct (dests srv i 0 s)"
    by (simp_all add: dests_def sorted_wrt_filter del: upt_Suc)
  then have "sorted_list_of_set (set (dests srv i 0 s)) = dests srv i 0 s"
    by (rule sorted_list_of_set.idem_if_sorted_distinct)
  moreover from assms have "set (dests srv i 0 s) = master s - {srv, i}"
    by (auto simp: set_dests)
  ultimately show ?thesis by simp
qed

lemma serve_extends:
  assumes "serve p srv rf k t = Inr t'"
  shows "\<exists>es. trace t' = trace t @ es"
  using assms by (cases rule: serve_InrE) simp_all

lemma serve_halt_extends:
  assumes "serve p srv rf k t = Inl h"
  shows "\<exists>es. htrace h = trace t @ es"
  using assms by (cases rule: serve_InlE) (simp_all add: htrace_write_error)

lemma dispatch_extends: "\<exists>es. events (dispatch p srv rf k u) = trace u @ es"
proof (cases "dispatch p srv rf k u")
  case (Inr u')
  have "\<exists>es. trace u' = trace u @ es"
    by (rule dispatch_Inr_invariant [where P = "\<lambda>v. \<exists>es. trace v = trace u @ es", OF Inr])
      (auto dest: serve_extends)
  with Inr show ?thesis by (simp add: events_def)
next
  case (Inl h)
  have "\<exists>j v. (\<exists>es. trace v = trace u @ es) \<and> serve p srv rf j v = Inl h"
    by (rule dispatch_Inl_origin [where P = "\<lambda>v. \<exists>es. trace v = trace u @ es", OF Inl])
      (auto dest: serve_extends)
  then obtain j v es where "trace v = trace u @ es" "serve p srv rf j v = Inl h"
    by blast
  with serve_halt_extends [of p srv rf j v h] Inl show ?thesis
    by (auto simp: events_def)
qed

lemma dispatch_fd_inv:
  assumes "dispatch p srv rf k u = Inr t" and "srv \<in> master u" and "\<forall>fd\<in>master u. fd \<le> fdmax u"
  shows "srv \<in> master t \<and> (\<forall>fd\<in>master t. fd \<le> fdmax t) \<and> fdmax u \<le> fdmax t"
  by (rule dispatch_Inr_invariant
        [where P = "\<lambda>t. srv \<in> master t \<and> (\<forall>fd\<in>master t. fd \<le> fdmax t) \<and> fdmax u \<le> fdmax t",
         OF assms(1)])
    (use assms(2,3) in \<open>auto dest: serve_fd_inv serve_fdmax_mono\<close>)

text \<open>
  C1. Let \<open>s\<close> be the state at the top of an iteration of \<open>while(1)\<close>, reached by the
  loop from its initial state, let \<open>select\<close> return with \<open>rf\<close> the descriptors it
  leaves set, and let \<open>t\<close> be the state in which the \<open>for\<close> loop comes to the ready
  client \<open>i\<close>, the descriptors below \<open>i\<close> having been served. The read from \<open>i\<close> returns
  a positive count and has put the bytes \<open>d\<close> into the buffer; \<open>others\<close> are the
  descriptors in \<open>master\<close> at that moment apart from the listening socket and \<open>i\<close>, in
  ascending order. Then:
  \<^item> the iteration is the step of the \<open>for\<close> loop for \<open>i\<close> in \<open>t\<close>, followed, when
    the step returns, by the \<open>for\<close> loop from \<open>i + 1\<close>;
  \<^item> when no write to \<open>others\<close> fails, the step returns, \<open>master\<close> is as before, what
    the step does is the read and then one \<open>write\<close> of exactly \<open>d\<close> to each of \<open>others\<close>,
    in that order, and these are events of the iteration;
  \<^item> in any case the writes of the step are writes of \<open>d\<close> to an initial part of
    \<open>others\<close> (all of the writes up to a failing one), so none goes to \<open>i\<close> or to the
    listening socket;
  \<^item> when \<open>i\<close> is the only client, the step returns with no write at all.
\<close>

theorem read_is_relayed_to_all_others:
  fixes p :: pass and srv i n :: nat and s t :: state and ps :: "pass list"
    and buf0 arrived d :: string and tr0 :: "event list" and rf :: "nat set" and others :: "nat list"
  defines "rf \<equiv> sys_select (fdmax s + 1) (master s) (select_fds p)"
    and "d \<equiv> take MAX_BUF (inq t i @ arrived)"
    and "others \<equiv> sorted_list_of_set (master t - {srv, i})"
  assumes top: "raw_loop srv ps (raw_init srv buf0 tr0) = Inr s"
    and sel: "select_ret p = Ok n"
    and before: "dispatch p srv (rf \<inter> {..<i}) 0
                   (s\<lparr>trace := trace s @ [Select (fdmax s + 1) (master s) (Ok n)]\<rparr>) = Inr t"
    and ready: "i \<in> rf" and client: "i \<noteq> srv"
    and rd: "read_ret p i = Ok arrived" and pos: "inq t i @ arrived \<noteq> []"
  shows "0 < length d \<and> length d \<le> MAX_BUF
    \<and> raw_pass srv p s =
        (case serve p srv rf i t of Inl h \<Rightarrow> Inl h | Inr t' \<Rightarrow> dispatch p srv rf (Suc i) t')
    \<and> ((\<forall>j\<in>set others. \<exists>w. write_ret p i j = Ok w) \<longrightarrow>
         (\<exists>t'. serve p srv rf i t = Inr t' \<and> master t' = master t \<and>
               trace t' = trace t @ Read i MAX_BUF (Ok (length d))
                            # map (\<lambda>j. Write j d (write_ret p i j)) others \<and>
               (\<exists>es. events (raw_pass srv p s) = trace t' @ es)))
    \<and> (\<exists>m. writes_of (drop (length (trace t)) (events (serve p srv rf i t))) =
              map (\<lambda>j. (j, d)) (take m others))
    \<and> i \<notin> set others \<and> srv \<notin> set others \<and> set others = master t - {srv, i}
    \<and> sorted others \<and> distinct others
    \<and> (master t = {srv, i} \<longrightarrow>
         (\<exists>t'. serve p srv rf i t = Inr t' \<and>
               trace t' = trace t @ [Read i MAX_BUF (Ok (length d))]))"
proof -
  let ?s1 = "s\<lparr>trace := trace s @ [Select (fdmax s + 1) (master s) (Ok n)]\<rparr>"
  let ?tr = "trace t @ [Read i MAX_BUF (Ok (length d))]"
  let ?W = "write_all p i d others ?tr"
  have inv_s: "srv \<in> master s \<and> (\<forall>fd\<in>master s. fd \<le> fdmax s)"
    by (rule raw_loop_fd_inv [OF top]) (simp_all add: raw_init_def)
  then have inv_s1: "srv \<in> master ?s1" "\<forall>fd\<in>master ?s1. fd \<le> fdmax ?s1" by simp_all
  from dispatch_fd_inv [OF before inv_s1]
  have bound: "\<forall>fd\<in>master t. fd \<le> fdmax t" and mono: "fdmax s \<le> fdmax t" by simp_all
  from ready have "i \<le> fdmax s" by (auto simp: rf_def sys_select_def)
  with mono have le: "i \<le> fdmax t" by simp
  have "raw_pass srv p s = dispatch p srv rf 0 ?s1"
    by (simp add: raw_pass_def Let_def sel rf_def)
  also have "\<dots> = dispatch p srv rf i t"
    using dispatch_before [of 0 i p srv rf ?s1] before by simp
  also have "\<dots> = (case serve p srv rf i t of Inl h \<Rightarrow> Inl h | Inr t' \<Rightarrow> dispatch p srv rf (Suc i) t')"
    using le by (subst dispatch.simps) simp
  finally have pass: "raw_pass srv p s =
      (case serve p srv rf i t of Inl h \<Rightarrow> Inl h | Inr t' \<Rightarrow> dispatch p srv rf (Suc i) t')" .
  have sv: "serve p srv rf i t = serve_client p srv i t"
    using ready client by (simp add: serve_def)
  have dd: "d = take MAX_BUF (inq t i @ arrived)" by (simp add: d_def)
  from pos have ne: "d \<noteq> []" by (auto simp: d_def MAX_BUF_def)
  have "length d \<le> MAX_BUF" unfolding d_def by (simp only: length_take min.cobounded2)
  with ne have len: "0 < length d \<and> length d \<le> MAX_BUF" by simp
  have ds: "dests srv i 0 t = others"
    unfolding others_def using bound by (rule dests_sorted_list)
  have fin: "finite (master t - {srv, i})"
  proof (rule finite_subset)
    show "master t - {srv, i} \<subseteq> {..fdmax t}" using bound by auto
  qed simp
  then have set_others: "set others = master t - {srv, i}" by (simp add: others_def)
  have order: "sorted others \<and> distinct others" by (simp add: others_def)
  have sc: "serve p srv rf i t =
      map_sum id (\<lambda>tr. t\<lparr>buf := d @ drop (length d) (buf t),
                       inq := (inq t)(i := drop MAX_BUF (inq t i @ arrived)), trace := tr\<rparr>) ?W"
    using serve_client_Ok [OF rd dd, of srv] ne by (simp add: ds sv)
  have all: "\<exists>t'. serve p srv rf i t = Inr t' \<and> master t' = master t \<and>
               trace t' = trace t @ Read i MAX_BUF (Ok (length d))
                            # map (\<lambda>j. Write j d (write_ret p i j)) others \<and>
               (\<exists>es. events (raw_pass srv p s) = trace t' @ es)"
    if ok: "\<forall>j\<in>set others. \<exists>w. write_ret p i j = Ok w"
  proof -
    have "?W = Inr (?tr @ map (\<lambda>j. Write j d (write_ret p i j)) others)"
      by (rule write_all_ok) (use ok in blast)
    then obtain t' where t': "serve p srv rf i t = Inr t'" "master t' = master t"
      "trace t' = trace t @ Read i MAX_BUF (Ok (length d)) # map (\<lambda>j. Write j d (write_ret p i j)) others"
      by (simp add: sc)
    from pass t'(1) have "raw_pass srv p s = dispatch p srv rf (Suc i) t'" by simp
    with dispatch_extends [of p srv rf "Suc i" t']
    have "\<exists>es. events (raw_pass srv p s) = trace t' @ es" by simp
    with t' show ?thesis by blast
  qed
  have part: "\<exists>m. writes_of (drop (length (trace t)) (events (serve p srv rf i t))) =
              map (\<lambda>j. (j, d)) (take m others)"
  proof (cases ?W)
    case (Inr tr')
    from write_all_Inr [OF Inr]
    have "tr' = ?tr @ map (\<lambda>j. Write j d (write_ret p i j)) others" by simp
    with Inr have "writes_of (drop (length (trace t)) (events (serve p srv rf i t))) =
        map (\<lambda>j. (j, d)) (take (length others) others)"
      by (simp add: sc events_def)
    then show ?thesis by blast
  next
    case (Inl h)
    from write_all_Inl [OF Inl] obtain ks1 k ks2 e where
      o: "others = ks1 @ k # ks2" and
      h: "h = write_error p e
             (?tr @ map (\<lambda>j. Write j d (write_ret p i j)) ks1 @ [Write k d (Err e)])"
      by blast
    from Inl h have "writes_of (drop (length (trace t)) (events (serve p srv rf i t))) =
        map (\<lambda>j. (j, d)) (ks1 @ [k])"
      by (simp add: sc events_def htrace_write_error writes_of_append)
    also have "ks1 @ [k] = take (Suc (length ks1)) others" by (simp add: o)
    finally show ?thesis by blast
  qed
  have one: "\<exists>t'. serve p srv rf i t = Inr t' \<and>
               trace t' = trace t @ [Read i MAX_BUF (Ok (length d))]"
    if "master t = {srv, i}"
  proof -
    from that set_others have "others = []" by simp
    then show ?thesis by (simp add: sc)
  qed
  from len pass all part set_others order one show ?thesis by auto
qed

theorem read_is_relayed_to_all_others_witness:
  "(\<exists>s. raw_loop 3 [pass_connect 3 4, pass_connect 3 5, pass_connect 3 6] (raw_init 3 ''xyz'' []) = Inr s
      \<and> (\<exists>es. events (raw_pass 3 (pass_send 4 ''hello'') s) =
                 (trace s @ [Select 7 {3, 4, 5, 6} (Ok 1)])
                 @ [Read 4 255 (Ok 5), Write 5 ''hello'' (Ok 5), Write 6 ''hello'' (Ok 5)] @ es)
      \<and> (\<exists>t es. dispatch pass_both 3 {4} 0
                     (s\<lparr>trace := trace s @ [Select 7 {3, 4, 5, 6} (Ok 2)]\<rparr>) = Inr t
                 \<and> events (raw_pass 3 pass_both s) =
                     trace t @ [Read 5 255 (Ok 2), Write 4 ''hi'' (Ok 2), Write 6 ''hi'' (Ok 2)] @ es))
   \<and> (\<exists>s t'. raw_loop 3 [pass_connect 3 4] (raw_init 3 ''xyz'' []) = Inr s
      \<and> serve (pass_send 4 ''hello'') 3 {4} 4 (s\<lparr>trace := trace s @ [Select 5 {3, 4} (Ok 1)]\<rparr>) = Inr t'
      \<and> trace t' = (trace s @ [Select 5 {3, 4} (Ok 1)]) @ [Read 4 255 (Ok 5)])"
proof -
  let ?cs = "[pass_connect 3 4, pass_connect 3 5, pass_connect 3 6]"
  let ?p = "pass_send 4 ''hello''"
  have l: "length ''hello'' = 5" "length ''hi'' = 2" by simp_all
  have o3: "sorted_list_of_set ({3, 4, 5, 6} - {3, 4 :: nat}) = [5, 6]"
    "sorted_list_of_set ({3, 4, 5, 6} - {3, 5 :: nat}) = [4, 6]"
    by code_simp+
  have "map_sum id (\<lambda>s. (master s, fdmax s, inq s 4)) (raw_loop 3 ?cs (raw_init 3 ''xyz'' []))
        = Inr ({3, 4, 5, 6}, 6, [])"
    by code_simp
  from map_sum_InrD [OF this] obtain s where run: "raw_loop 3 ?cs (raw_init 3 ''xyz'' []) = Inr s"
    and s: "master s = {3, 4, 5, 6}" "fdmax s = 6" "inq s 4 = []"
    by auto
  let ?s1 = "s\<lparr>trace := trace s @ [Select (fdmax s + 1) (master s) (Ok 1)]\<rparr>"
  have rf: "sys_select (fdmax s + 1) (master s) (select_fds ?p) = {4}"
    "sys_select (Suc (fdmax s)) (master s) (select_fds ?p) = {4}"
    by (auto simp: sys_select_def pass_send_def s)
  have sel: "select_ret ?p = Ok 1" and rd: "read_ret ?p 4 = Ok ''hello''"
    and wr: "write_ret ?p 4 j = Ok 5" for j
    by (simp_all add: pass_send_def)
  have before: "dispatch ?p 3 (sys_select (fdmax s + 1) (master s) (select_fds ?p) \<inter> {..<4}) 0 ?s1
                = Inr ?s1"
    by (rule dispatch_idle) (simp add: rf)
  have ready: "4 \<in> sys_select (fdmax s + 1) (master s) (select_fds ?p)" by (simp add: rf)
  have pos: "inq ?s1 4 @ ''hello'' \<noteq> []" by simp
  have d: "take MAX_BUF (inq ?s1 4 @ ''hello'') = ''hello''" by (simp add: s MAX_BUF_def)
  have ok: "\<forall>j\<in>set (sorted_list_of_set (master ?s1 - {3, 4})). \<exists>w. write_ret ?p 4 j = Ok w"
    by (simp add: wr)
  note inst = read_is_relayed_to_all_others
    [where p = ?p and i = 4 and n = 1 and t = ?s1 and arrived = "''hello''",
     OF run sel before ready _ rd pos]
  have "\<exists>t'. serve ?p 3 (sys_select (fdmax s + 1) (master s) (select_fds ?p)) 4 ?s1 = Inr t' \<and>
          master t' = master ?s1 \<and>
          trace t' = trace ?s1 @ Read 4 MAX_BUF (Ok (length (take MAX_BUF (inq ?s1 4 @ ''hello''))))
              # map (\<lambda>j. Write j (take MAX_BUF (inq ?s1 4 @ ''hello'')) (write_ret ?p 4 j))
                  (sorted_list_of_set (master ?s1 - {3, 4})) \<and>
          (\<exists>es. events (raw_pass 3 ?p s) = trace t' @ es)"
    by (rule inst [THEN conjunct2, THEN conjunct2, THEN conjunct2, THEN conjunct1, THEN mp, OF _ ok])
      simp
  then obtain t' es where
    "serve ?p 3 (sys_select (fdmax s + 1) (master s) (select_fds ?p)) 4 ?s1 = Inr t'"
    "master t' = master ?s1"
    "trace t' = trace ?s1 @ Read 4 MAX_BUF (Ok (length (take MAX_BUF (inq ?s1 4 @ ''hello''))))
              # map (\<lambda>j. Write j (take MAX_BUF (inq ?s1 4 @ ''hello'')) (write_ret ?p 4 j))
                  (sorted_list_of_set (master ?s1 - {3, 4}))"
    and "events (raw_pass 3 ?p s) = trace t' @ es"
    by (elim exE conjE)
  then have "events (raw_pass 3 ?p s) =
                 (trace s @ [Select 7 {3, 4, 5, 6} (Ok 1)])
                 @ [Read 4 255 (Ok 5), Write 5 ''hello'' (Ok 5), Write 6 ''hello'' (Ok 5)] @ es"
    unfolding d l by (simp add: s o3 wr MAX_BUF_def)
  then have one: "\<exists>es. events (raw_pass 3 ?p s) =
                 (trace s @ [Select 7 {3, 4, 5, 6} (Ok 1)])
                 @ [Read 4 255 (Ok 5), Write 5 ''hello'' (Ok 5), Write 6 ''hello'' (Ok 5)] @ es"
    ..
  let ?s2 = "s\<lparr>trace := trace s @ [Select (fdmax s + 1) (master s) (Ok 2)]\<rparr>"
  have "map_sum id (\<lambda>s. map_sum id (\<lambda>t. (master t, inq t 5))
           (dispatch pass_both 3 {4} 0 (s\<lparr>trace := trace s @ [Select 7 {3, 4, 5, 6} (Ok 2)]\<rparr>)))
          (raw_loop 3 ?cs (raw_init 3 ''xyz'' []))
        = Inr (Inr ({3, 4, 5, 6}, []))"
    by code_simp
  with run have "map_sum id (\<lambda>t. (master t, inq t 5)) (dispatch pass_both 3 {4} 0 ?s2)
      = Inr ({3, 4, 5, 6}, [])"
    by (simp add: s)
  from map_sum_InrD [OF this] obtain t where t0: "dispatch pass_both 3 {4} 0 ?s2 = Inr t"
    and t: "master t = {3, 4, 5, 6}" "inq t 5 = []"
    by auto
  have rf2: "sys_select (fdmax s + 1) (master s) (select_fds pass_both) = {4, 5}"
    "sys_select (Suc (fdmax s)) (master s) (select_fds pass_both) = {4, 5}"
    by (auto simp: sys_select_def pass_both_def s)
  have cut: "{4, 5} \<inter> {..<5 :: nat} = {4}" by auto
  have sel2: "select_ret pass_both = Ok 2" and rd2: "read_ret pass_both 5 = Ok ''hi''"
    and wr2: "write_ret pass_both 5 j = Ok 2" for j
    by (simp_all add: pass_both_def)
  have before2: "dispatch pass_both 3
       (sys_select (fdmax s + 1) (master s) (select_fds pass_both) \<inter> {..<5}) 0 ?s2 = Inr t"
    using t0 by (simp add: rf2 cut)
  have ready2: "5 \<in> sys_select (fdmax s + 1) (master s) (select_fds pass_both)" by (simp add: rf2)
  have pos2: "inq t 5 @ ''hi'' \<noteq> []" by simp
  have d2: "take MAX_BUF (inq t 5 @ ''hi'') = ''hi''" by (simp add: t MAX_BUF_def)
  have ok2: "\<forall>j\<in>set (sorted_list_of_set (master t - {3, 5})). \<exists>w. write_ret pass_both 5 j = Ok w"
    by (simp add: wr2)
  note inst2 = read_is_relayed_to_all_others
    [where p = pass_both and i = 5 and n = 2 and t = t and arrived = "''hi''",
     OF run sel2 before2 ready2 _ rd2 pos2]
  have "\<exists>t'. serve pass_both 3 (sys_select (fdmax s + 1) (master s) (select_fds pass_both)) 5 t = Inr t' \<and>
          master t' = master t \<and>
          trace t' = trace t @ Read 5 MAX_BUF (Ok (length (take MAX_BUF (inq t 5 @ ''hi''))))
              # map (\<lambda>j. Write j (take MAX_BUF (inq t 5 @ ''hi'')) (write_ret pass_both 5 j))
                  (sorted_list_of_set (master t - {3, 5})) \<and>
          (\<exists>es. events (raw_pass 3 pass_both s) = trace t' @ es)"
    by (rule inst2 [THEN conjunct2, THEN conjunct2, THEN conjunct2, THEN conjunct1, THEN mp, OF _ ok2])
      simp
  then obtain t' es where
    "serve pass_both 3 (sys_select (fdmax s + 1) (master s) (select_fds pass_both)) 5 t = Inr t'"
    "master t' = master t"
    "trace t' = trace t @ Read 5 MAX_BUF (Ok (length (take MAX_BUF (inq t 5 @ ''hi''))))
              # map (\<lambda>j. Write j (take MAX_BUF (inq t 5 @ ''hi'')) (write_ret pass_both 5 j))
                  (sorted_list_of_set (master t - {3, 5}))"
    and "events (raw_pass 3 pass_both s) = trace t' @ es"
    by (elim exE conjE)
  then have "events (raw_pass 3 pass_both s) =
                 trace t @ [Read 5 255 (Ok 2), Write 4 ''hi'' (Ok 2), Write 6 ''hi'' (Ok 2)] @ es"
    unfolding d2 l t o3 by (simp add: wr2 MAX_BUF_def)
  with t0 have two: "\<exists>t es. dispatch pass_both 3 {4} 0
                     (s\<lparr>trace := trace s @ [Select 7 {3, 4, 5, 6} (Ok 2)]\<rparr>) = Inr t
                 \<and> events (raw_pass 3 pass_both s) =
                     trace t @ [Read 5 255 (Ok 2), Write 4 ''hi'' (Ok 2), Write 6 ''hi'' (Ok 2)] @ es"
    by (auto simp: s)
  have "map_sum id (\<lambda>s. (master s, fdmax s, inq s 4)) (raw_loop 3 [pass_connect 3 4] (raw_init 3 ''xyz'' []))
        = Inr ({3, 4}, 4, [])"
    by code_simp
  from map_sum_InrD [OF this] obtain u where run1: "raw_loop 3 [pass_connect 3 4] (raw_init 3 ''xyz'' []) = Inr u"
    and u: "master u = {3, 4}" "fdmax u = 4" "inq u 4 = []"
    by auto
  let ?u1 = "u\<lparr>trace := trace u @ [Select (fdmax u + 1) (master u) (Ok 1)]\<rparr>"
  have rfu: "sys_select (fdmax u + 1) (master u) (select_fds ?p) = {4}"
    "sys_select (Suc (fdmax u)) (master u) (select_fds ?p) = {4}"
    by (auto simp: sys_select_def pass_send_def u)
  have beforeu: "dispatch ?p 3 (sys_select (fdmax u + 1) (master u) (select_fds ?p) \<inter> {..<4}) 0 ?u1
                = Inr ?u1"
    by (rule dispatch_idle) (simp add: rfu)
  have readyu: "4 \<in> sys_select (fdmax u + 1) (master u) (select_fds ?p)" by (simp add: rfu)
  have posu: "inq ?u1 4 @ ''hello'' \<noteq> []" by simp
  have du: "take MAX_BUF (inq ?u1 4 @ ''hello'') = ''hello''" by (simp add: u MAX_BUF_def)
  have alone: "master ?u1 = {3, 4}" by (simp add: u)
  note inst3 = read_is_relayed_to_all_others
    [where p = ?p and i = 4 and n = 1 and t = ?u1 and arrived = "''hello''",
     OF run1 sel beforeu readyu _ rd posu]
  have "\<exists>t'. serve ?p 3 (sys_select (fdmax u + 1) (master u) (select_fds ?p)) 4 ?u1 = Inr t' \<and>
          trace t' = trace ?u1 @ [Read 4 MAX_BUF (Ok (length (take MAX_BUF (inq ?u1 4 @ ''hello''))))]"
    by (rule inst3 [THEN conjunct2, THEN conjunct2, THEN conjunct2, THEN conjunct2, THEN conjunct2,
                    THEN conjunct2, THEN conjunct2, THEN conjunct2, THEN conjunct2, THEN conjunct2,
                    THEN mp, OF _ alone])
      simp
  then have three: "\<exists>t'. serve ?p 3 {4} 4 (u\<lparr>trace := trace u @ [Select 5 {3, 4} (Ok 1)]\<rparr>) = Inr t' \<and>
          trace t' = (trace u @ [Select 5 {3, 4} (Ok 1)]) @ [Read 4 255 (Ok 5)]"
    unfolding du l rfu by (simp add: u MAX_BUF_def)
  from run one two have a: "\<exists>s. raw_loop 3 ?cs (raw_init 3 ''xyz'' []) = Inr s
      \<and> (\<exists>es. events (raw_pass 3 ?p s) =
                 (trace s @ [Select 7 {3, 4, 5, 6} (Ok 1)])
                 @ [Read 4 255 (Ok 5), Write 5 ''hello'' (Ok 5), Write 6 ''hello'' (Ok 5)] @ es)
      \<and> (\<exists>t es. dispatch pass_both 3 {4} 0
                     (s\<lparr>trace := trace s @ [Select 7 {3, 4, 5, 6} (Ok 2)]\<rparr>) = Inr t
                 \<and> events (raw_pass 3 pass_both s) =
                     trace t @ [Read 5 255 (Ok 2), Write 4 ''hi'' (Ok 2), Write 6 ''hi'' (Ok 2)] @ es)"
    by blast
  from run1 three have b: "\<exists>s t'. raw_loop 3 [pass_connect 3 4] (raw_init 3 ''xyz'' []) = Inr s
      \<and> serve ?p 3 {4} 4 (s\<lparr>trace := trace s @ [Select 5 {3, 4} (Ok 1)]\<rparr>) = Inr t'
      \<and> trace t' = (trace s @ [Select 5 {3, 4} (Ok 1)]) @ [Read 4 255 (Ok 5)]"
    by blast
  from a b show ?thesis by (rule conjI)
qed

section \<open>A client that closes\<close>

lemma writes_to_append: "writes_to fd (xs @ ys) = writes_to fd xs @ writes_to fd ys"
  by (simp add: writes_to_def writes_of_append)

lemma writes_to_simps [simp]:
  "writes_to fd [] = []"
  "writes_to fd (Read i n r # es) = writes_to fd es"
  "writes_to fd (Close i # es) = writes_to fd es"
  "writes_to fd (Select n fds r # es) = writes_to fd es"
  "writes_to fd (Accept l r # es) = writes_to fd es"
  "writes_to fd (Perror msg e # es) = writes_to fd es"
  "writes_to fd (Write j d r # es) = (if j = fd then d # writes_to fd es else writes_to fd es)"
  by (simp_all add: writes_to_def)


lemma writes_to_others [simp]:
  "fd \<notin> set ks \<Longrightarrow> writes_to fd (map (\<lambda>j. Write j d (f j)) ks) = []"
  by (induction ks) auto

lemma gone_serve:
  assumes "serve p srv rf k t = Inr t'" and "accept_ret p \<noteq> Ok i"
    and "i \<notin> master t \<and> writes_to i (trace t) = ws"
  shows "i \<notin> master t' \<and> writes_to i (trace t') = ws"
  using assms(1)
proof (cases rule: serve_InrE)
  case idle
  with assms show ?thesis by simp
next
  case (accepted c)
  with assms show ?thesis by (auto simp: writes_to_append)
next
  case (closed arrived)
  with assms show ?thesis by (auto simp: writes_to_append)
next
  case (relayed arrived d)
  from assms(3) have "i \<notin> set (dests srv k 0 t)" by (simp add: set_dests)
  with relayed assms show ?thesis by (simp add: writes_to_append)
qed

lemma gone_halt:
  assumes "serve p srv rf k t = Inl h" and "i \<notin> master t \<and> writes_to i (trace t) = ws"
  shows "writes_to i (htrace h) = ws"
  using assms(1)
proof (cases rule: serve_InlE)
  case (accept_failed e)
  with assms show ?thesis by (simp add: error_def writes_to_append)
next
  case (fd_set_overrun c)
  with assms show ?thesis by (simp add: writes_to_append)
next
  case (read_failed e)
  with assms show ?thesis by (simp add: error_def writes_to_append)
next
  case (write_failed arrived d ks1 j ks2 e)
  from write_failed(6) have "set ks1 \<subseteq> set (dests srv k 0 t)" "j \<in> set (dests srv k 0 t)"
    by auto
  with assms(2) have "i \<notin> set ks1" "j \<noteq> i" by (auto simp: set_dests)
  with write_failed(9) assms(2) show ?thesis by (simp add: htrace_write_error writes_to_append)
qed

lemma gone_dispatch:
  assumes "accept_ret p \<noteq> Ok i" and "i \<notin> master t"
  shows "writes_to i (events (dispatch p srv rf k t)) = writes_to i (trace t)"
proof (cases "dispatch p srv rf k t")
  case (Inr t')
  have "i \<notin> master t' \<and> writes_to i (trace t') = writes_to i (trace t)"
    by (rule dispatch_Inr_invariant
          [where P = "\<lambda>u. i \<notin> master u \<and> writes_to i (trace u) = writes_to i (trace t)", OF Inr])
      (use assms in \<open>auto dest: gone_serve\<close>)
  with Inr show ?thesis by (simp add: events_def)
next
  case (Inl h)
  have "\<exists>j u. (i \<notin> master u \<and> writes_to i (trace u) = writes_to i (trace t)) \<and>
          serve p srv rf j u = Inl h"
    by (rule dispatch_Inl_origin
          [where P = "\<lambda>u. i \<notin> master u \<and> writes_to i (trace u) = writes_to i (trace t)", OF Inl])
      (use assms in \<open>auto dest: gone_serve\<close>)
  with Inl show ?thesis by (auto simp: events_def dest: gone_halt)
qed

lemma gone_raw_loop:
  assumes "\<forall>q\<in>set qs. accept_ret q \<noteq> Ok i" and "i \<notin> master t"
  shows "writes_to i (events (raw_loop srv qs t)) = writes_to i (trace t)"
proof (cases "raw_loop srv qs t")
  case (Inr t')
  have "i \<notin> master t' \<and> writes_to i (trace t') = writes_to i (trace t)"
    by (rule raw_loop_Inr_invariant
          [where P = "\<lambda>u. i \<notin> master u \<and> writes_to i (trace u) = writes_to i (trace t)", OF Inr])
      (use assms in \<open>auto simp: writes_to_append dest: gone_serve\<close>)
  with Inr show ?thesis by (simp add: events_def)
next
  case (Inl h)
  have "\<exists>q u. q \<in> set qs \<and> (i \<notin> master u \<and> writes_to i (trace u) = writes_to i (trace t)) \<and>
           ((\<exists>e. select_ret q = Err e \<and>
               h = error ''ERROR on select'' e (trace u @ [Select (Suc (fdmax u)) (master u) (Err e)]))
            \<or> (\<exists>rf k. serve q srv rf k u = Inl h))"
    by (rule raw_loop_Inl_origin
          [where P = "\<lambda>u. i \<notin> master u \<and> writes_to i (trace u) = writes_to i (trace t)", OF Inl])
      (use assms in \<open>auto simp: writes_to_append dest: gone_serve\<close>)
  then obtain q u where u: "i \<notin> master u \<and> writes_to i (trace u) = writes_to i (trace t)"
    and h: "(\<exists>e. select_ret q = Err e \<and>
               h = error ''ERROR on select'' e (trace u @ [Select (Suc (fdmax u)) (master u) (Err e)]))
            \<or> (\<exists>rf k. serve q srv rf k u = Inl h)"
    by blast
  from h have "writes_to i (htrace h) = writes_to i (trace t)"
  proof
    assume "\<exists>e. select_ret q = Err e \<and>
               h = error ''ERROR on select'' e (trace u @ [Select (Suc (fdmax u)) (master u) (Err e)])"
    with u show ?thesis by (auto simp: error_def writes_to_append)
  next
    assume "\<exists>rf k. serve q srv rf k u = Inl h"
    with u show ?thesis by (auto dest: gone_halt)
  qed
  with Inl show ?thesis by (simp add: events_def)
qed

text \<open>
  C2. A read from client \<open>i\<close> that returns 0 (nothing queued, nothing arrived) is not an
  error. The step returns to the loop, having issued the read and \<open>close(i)\<close> and
  nothing else, with \<open>i\<close> taken out of \<open>master\<close> and every other variable, every other
  member of \<open>master\<close> and every other queue as before; the outer loop goes on with the
  next descriptor. From then on, in the rest of the pass and in all later passes, and
  however they end, no \<open>write\<close> goes to \<open>i\<close> as long as \<open>accept\<close> does not return \<open>i\<close>
  again.
\<close>

theorem peer_close_removes_one_client:
  fixes p :: pass and srv i :: nat and s s' :: state
  defines "s' \<equiv> s\<lparr>master := master s - {i}, inq := (inq s)(i := []),
                     trace := trace s @ [Read i MAX_BUF (Ok 0), Close i]\<rparr>"
  assumes rd: "read_ret p i = Ok []" and empty: "inq s i = []"
  shows "serve_client p srv i s = Inr s'
    \<and> fdmax s' = fdmax s \<and> buf s' = buf s
    \<and> (\<forall>k. k \<noteq> i \<longrightarrow> (k \<in> master s' \<longleftrightarrow> k \<in> master s) \<and> inq s' k = inq s k)
    \<and> i \<notin> master s'
    \<and> (\<forall>rf. i \<in> rf \<and> i \<noteq> srv \<and> i \<le> fdmax s \<longrightarrow>
          dispatch p srv rf i s = dispatch p srv rf (Suc i) s')
    \<and> (\<forall>rf k. accept_ret p \<noteq> Ok i \<longrightarrow>
          writes_to i (events (dispatch p srv rf k s')) = writes_to i (trace s))
    \<and> (\<forall>qs t. i \<notin> master t \<and> (\<forall>q\<in>set qs. accept_ret q \<noteq> Ok i) \<longrightarrow>
          writes_to i (events (raw_loop srv qs t)) = writes_to i (trace t))"
proof -
  have sc: "serve_client p srv i s = Inr s'"
    using serve_client_Ok [OF rd refl, where s = s and srv = srv] empty by (simp add: s'_def)
  have gone: "i \<notin> master s'" by (simp add: s'_def)
  have tr: "writes_to i (trace s') = writes_to i (trace s)"
    by (simp add: s'_def writes_to_append)
  have next_fd: "dispatch p srv rf i s = dispatch p srv rf (Suc i) s'"
    if "i \<in> rf \<and> i \<noteq> srv \<and> i \<le> fdmax s" for rf
    using that sc by (subst dispatch.simps) (simp add: serve_def)
  have rest: "writes_to i (events (dispatch p srv rf k s')) = writes_to i (trace s)"
    if "accept_ret p \<noteq> Ok i" for rf k
    using gone_dispatch [OF that gone, of srv rf k] tr by simp
  have later: "writes_to i (events (raw_loop srv qs t)) = writes_to i (trace t)"
    if "i \<notin> master t \<and> (\<forall>q\<in>set qs. accept_ret q \<noteq> Ok i)" for qs t
    using that by (simp add: gone_raw_loop)
  have frame: "fdmax s' = fdmax s \<and> buf s' = buf s
    \<and> (\<forall>k. k \<noteq> i \<longrightarrow> (k \<in> master s' \<longleftrightarrow> k \<in> master s) \<and> inq s' k = inq s k)"
    by (simp add: s'_def)
  from sc frame gone next_fd rest later show ?thesis by blast
qed

theorem peer_close_removes_one_client_witness:
  "read_ret (pass_send 6 []) 6 = Ok [] \<and> inq (connected {4, 5, 6}) 6 = []
   \<and> (\<exists>s'. serve_client (pass_send 6 []) 3 6 (connected {4, 5, 6}) = Inr s'
          \<and> master s' = {3, 4, 5} \<and> trace s' = [Read 6 255 (Ok 0), Close 6]
          \<and> 6 \<notin> master s'
          \<and> writes_to 6 (events (raw_loop 3 [pass_send 4 ''ping''] s')) = []
          \<and> writes_to 5 (events (raw_loop 3 [pass_send 4 ''ping''] s')) = [''ping''])"
proof -
  define s' where "s' = (connected {4, 5, 6})\<lparr>master := master (connected {4, 5, 6}) - {6},
      inq := (inq (connected {4, 5, 6}))(6 := []),
      trace := trace (connected {4, 5, 6}) @ [Read 6 MAX_BUF (Ok 0), Close 6]\<rparr>"
  have rd: "read_ret (pass_send 6 []) 6 = Ok []"
    by (simp add: pass_send_def)
  have empty: "inq (connected {4, 5, 6}) 6 = []"
    by (simp add: connected_def)
  have acc: "\<forall>q\<in>set [pass_send 4 ''ping'']. accept_ret q \<noteq> Ok 6"
    by (simp add: pass_send_def)
  have s: "master s' = {3, 4, 5}" "trace s' = [Read 6 255 (Ok 0), Close 6]"
    by (auto simp: s'_def connected_def MAX_BUF_def)
  have five: "writes_to 5 (events (raw_loop 3 [pass_send 4 ''ping''] s')) = [''ping'']"
    unfolding s'_def by code_simp
  note inst = peer_close_removes_one_client [OF rd empty, of 3, folded s'_def]
  from inst have "serve_client (pass_send 6 []) 3 6 (connected {4, 5, 6}) = Inr s'" by blast
  moreover from inst have gone: "6 \<notin> master s'" by blast
  moreover have "writes_to 6 (events (raw_loop 3 [pass_send 4 ''ping''] s')) = []"
  proof -
    from inst have "\<forall>qs t. 6 \<notin> master t \<and> (\<forall>q\<in>set qs. accept_ret q \<noteq> Ok 6) \<longrightarrow>
          writes_to 6 (events (raw_loop 3 qs t)) = writes_to 6 (trace t)"
      by blast
    with gone acc
    have "writes_to 6 (events (raw_loop 3 [pass_send 4 ''ping''] s')) = writes_to 6 (trace s')"
      by blast
    also have "writes_to 6 (trace s') = []" by (simp add: s)
    finally show ?thesis .
  qed
  ultimately show ?thesis using rd empty s five by blast
qed

section \<open>What is left in the buffer is never sent\<close>

lemma forget_buf_fields:
  assumes "forget_buf s = forget_buf t"
  shows "master s = master t" "fdmax s = fdmax t" "inq s = inq t" "trace s = trace t"
proof -
  have "master (forget_buf s) = master (forget_buf t)" "fdmax (forget_buf s) = fdmax (forget_buf t)"
    "inq (forget_buf s) = inq (forget_buf t)" "trace (forget_buf s) = trace (forget_buf t)"
    using assms by simp_all
  then show "master s = master t" "fdmax s = fdmax t" "inq s = inq t" "trace s = trace t"
    by (simp_all add: forget_buf_def)
qed

lemma forget_buf_update:
  "forget_buf (s\<lparr>buf := b\<rparr>) = forget_buf s"
  "forget_buf (s\<lparr>master := m\<rparr>) = (forget_buf s)\<lparr>master := m\<rparr>"
  "forget_buf (s\<lparr>fdmax := n\<rparr>) = (forget_buf s)\<lparr>fdmax := n\<rparr>"
  "forget_buf (s\<lparr>inq := q\<rparr>) = (forget_buf s)\<lparr>inq := q\<rparr>"
  "forget_buf (s\<lparr>trace := tr\<rparr>) = (forget_buf s)\<lparr>trace := tr\<rparr>"
  by (simp_all add: forget_buf_def)

lemma dests_forget:
  assumes "forget_buf s = forget_buf t"
  shows "dests srv i j s = dests srv i j t"
  by (simp add: dests_def forget_buf_fields(1,2) [OF assms])

lemma serve_client_observed:
  assumes eq: "forget_buf s = forget_buf t"
  shows "observed (serve_client p srv i s) = observed (serve_client p srv i t)"
proof (cases "read_ret p i")
  case (Err e)
  then show ?thesis by (simp add: serve_client_Err forget_buf_fields [OF eq])
next
  case (Ok arrived)
  define d where "d = take MAX_BUF (inq s i @ arrived)"
  have d': "d = take MAX_BUF (inq t i @ arrived)"
    by (simp add: d_def forget_buf_fields [OF eq])
  note a = serve_client_Ok [OF Ok d_def, of srv] and b = serve_client_Ok [OF Ok d', of srv]
  show ?thesis
  proof (cases "d = []")
    case True
    then show ?thesis
      by (simp add: a b observed_def forget_buf_fields [OF eq] forget_buf_update eq)
  next
    case False
    let ?W = "write_all p i d (dests srv i 0 s) (trace s @ [Read i MAX_BUF (Ok (length d))])"
    have W: "write_all p i d (dests srv i 0 t) (trace t @ [Read i MAX_BUF (Ok (length d))]) = ?W"
      by (simp add: dests_forget [OF eq] forget_buf_fields [OF eq])
    show ?thesis
      by (cases ?W)
        (simp_all add: a b W False observed_def forget_buf_fields [OF eq] forget_buf_update eq)
  qed
qed

lemma serve_observed:
  assumes eq: "forget_buf s = forget_buf t"
  shows "observed (serve p srv rf k s) = observed (serve p srv rf k t)"
proof -
  have "observed (accept_client p srv s) = observed (accept_client p srv t)"
    by (cases "accept_ret p")
      (simp_all add: accept_client_def init_cli_def observed_def forget_buf_fields [OF eq]
        forget_buf_update eq)
  with serve_client_observed [OF eq, of p srv k] show ?thesis
    by (simp add: serve_def observed_def eq)
qed

lemma observed_cases:
  assumes "observed r = observed r'"
  obtains (halted) h where "r = Inl h" "r' = Inl h"
  | (running) s t where "r = Inr s" "r' = Inr t" "forget_buf s = forget_buf t"
  using assms by (cases r; cases r') (auto simp: observed_def)

lemma dispatch_observed:
  "forget_buf s = forget_buf t \<Longrightarrow>
     observed (dispatch p srv rf i s) = observed (dispatch p srv rf i t)"
proof (induction p srv rf i s arbitrary: t rule: dispatch.induct)
  case (1 p srv rf i s)
  note eq = "1.prems"
  show ?case
  proof (cases "i \<le> fdmax s")
    case False
    with eq show ?thesis
      by (simp add: dispatch.simps [of p srv rf i] forget_buf_fields(2) [OF eq] observed_def)
  next
    case True
    then have le: "i \<le> fdmax t" by (simp add: forget_buf_fields(2) [OF eq])
    from serve_observed [OF eq, of p srv rf i] show ?thesis
    proof (cases rule: observed_cases)
      case (halted h)
      with True le show ?thesis by (simp add: dispatch.simps [of p srv rf i])
    next
      case (running s1 t1)
      from "1.IH" [OF True running(1) running(3)] running(1,2) True le show ?thesis
        by (simp add: dispatch.simps [of p srv rf i])
    qed
  qed
qed

lemma raw_pass_observed:
  assumes eq: "forget_buf s = forget_buf t"
  shows "observed (raw_pass srv p s) = observed (raw_pass srv p t)"
proof (cases "select_ret p")
  case (Err e)
  then show ?thesis by (simp add: raw_pass_def Let_def forget_buf_fields [OF eq])
next
  case (Ok n)
  then show ?thesis
    by (simp add: raw_pass_def Let_def forget_buf_fields [OF eq]
        dispatch_observed [where s = "s\<lparr>trace := _\<rparr>" and t = "t\<lparr>trace := _\<rparr>"]
        forget_buf_update eq)
qed

lemma raw_loop_observed:
  "forget_buf s = forget_buf t \<Longrightarrow>
     observed (raw_loop srv ps s) = observed (raw_loop srv ps t)"
proof (induction ps arbitrary: s t)
  case Nil
  then show ?case by (simp add: observed_def)
next
  case (Cons p ps)
  from raw_pass_observed [OF Cons.prems, of srv p] show ?case
  proof (cases rule: observed_cases)
    case (halted h)
    then show ?thesis by simp
  next
    case (running s1 t1)
    with Cons.IH [OF running(3)] show ?thesis by simp
  qed
qed

lemma events_observed: "events (observed r) = events r"
  by (cases r) (simp_all add: observed_def events_def forget_buf_def)

lemma serve_client_writes_data:
  assumes rd: "read_ret p i = Ok arrived"
  shows "snd ` set (writes_of (drop (length (trace s)) (events (serve_client p srv i s))))
           \<subseteq> {take MAX_BUF (inq s i @ arrived)}"
proof -
  define d where "d = take MAX_BUF (inq s i @ arrived)"
  note eq = serve_client_Ok [OF rd d_def, of srv]
  let ?tr = "trace s @ [Read i MAX_BUF (Ok (length d))]"
  let ?W = "write_all p i d (dests srv i 0 s) ?tr"
  have "snd ` set (writes_of (drop (length (trace s)) (events (serve_client p srv i s)))) \<subseteq> {d}"
  proof (cases "d = []")
    case True
    then show ?thesis by (simp add: eq events_def)
  next
    case False
    show ?thesis
    proof (cases ?W)
      case (Inr tr')
      from write_all_Inr [OF Inr] Inr False show ?thesis
        by (auto simp: eq events_def)
    next
      case (Inl h)
      from write_all_Inl [OF Inl] obtain ks1 k e where
        "h = write_error p e
               (?tr @ map (\<lambda>j. Write j d (write_ret p i j)) ks1 @ [Write k d (Err e)])"
        by blast
      with Inl False show ?thesis
        by (auto simp: eq events_def htrace_write_error writes_of_append)
    qed
  qed
  then show ?thesis by (simp only: d_def)
qed

text \<open>
  C10. The buffer is one array for all reads, and a read overwrites only its first
  \<open>nbytes\<close> bytes. Whatever the buffer holds does not show: a run from a state and the
  run from the same state with any other buffer contents, under the same answers of the
  kernel, end the same way, with the same events (so the same \<open>write\<close> calls with the
  same bytes) and the same variables apart from the buffer itself. The same holds for
  the whole program and the contents of its uninitialised buffer. Every \<open>write\<close> of a
  step carries exactly the bytes that the step's own read returned.
\<close>

theorem stale_buffer_bytes_are_not_sent:
  "observed (raw_loop srv ps (s\<lparr>buf := b\<rparr>)) = observed (raw_loop srv ps s)
   \<and> events (raw_loop srv ps (s\<lparr>buf := b\<rparr>)) = events (raw_loop srv ps s)
   \<and> observed (raw env ps b port) = observed (raw env ps b' port)
   \<and> (read_ret p i = Ok arrived \<longrightarrow>
        snd ` set (writes_of (drop (length (trace s)) (events (serve_client p srv i s))))
          \<subseteq> {take MAX_BUF (inq s i @ arrived)})"
proof -
  have loop: "observed (raw_loop srv ps (s\<lparr>buf := b\<rparr>)) = observed (raw_loop srv ps s)"
    by (rule raw_loop_observed) (simp add: forget_buf_update)
  then have "events (observed (raw_loop srv ps (s\<lparr>buf := b\<rparr>))) = events (observed (raw_loop srv ps s))"
    by simp
  then have ev: "events (raw_loop srv ps (s\<lparr>buf := b\<rparr>)) = events (raw_loop srv ps s)"
    by (simp only: events_observed)
  have prog: "observed (raw env ps b port) = observed (raw env ps b' port)"
  proof (cases "init_srv env port")
    case (Inl h)
    then show ?thesis by (simp add: raw_def)
  next
    case (Inr r)
    obtain l tr where r: "r = (l, tr)" by (cases r)
    have "observed (raw_loop l ps (raw_init l b tr)) = observed (raw_loop l ps (raw_init l b' tr))"
      by (rule raw_loop_observed) (simp add: raw_init_def forget_buf_def)
    with Inr r show ?thesis by (simp add: raw_def)
  qed
  from loop ev prog serve_client_writes_data [of p i arrived s srv] show ?thesis by blast
qed

theorem stale_buffer_bytes_are_not_sent_witness:
  "events (raw_loop 3 scenario (raw_init 3 ''a stale secret'' []))
     = events (raw_loop 3 scenario (raw_init 3 ''xyz'' []))
   \<and> writes_to 4 (events (raw_loop 3 scenario (raw_init 3 ''a stale secret'' []))) = [''hi'']
   \<and> writes_to 5 (events (raw_loop 3 scenario (raw_init 3 ''a stale secret'' [])))
       = [''hello'', ''ping'']"
proof -
  have "raw_init 3 ''a stale secret'' [] = (raw_init 3 ''xyz'' [])\<lparr>buf := ''a stale secret''\<rparr>"
    by (simp add: raw_init_def)
  with stale_buffer_bytes_are_not_sent
         [where srv = 3 and ps = scenario and s = "raw_init 3 ''xyz'' []" and b = "''a stale secret''"]
  have "events (raw_loop 3 scenario (raw_init 3 ''a stale secret'' []))
        = events (raw_loop 3 scenario (raw_init 3 ''xyz'' []))"
    by simp
  moreover have "writes_to 4 (events (raw_loop 3 scenario (raw_init 3 ''xyz'' []))) = [''hi'']"
    by code_simp
  moreover have "writes_to 5 (events (raw_loop 3 scenario (raw_init 3 ''xyz'' [])))
       = [''hello'', ''ping'']"
    by code_simp
  ultimately show ?thesis by simp
qed

section \<open>Failing system calls end the process\<close>


lemma diagnostics_writes [simp]: "diagnostics (map (\<lambda>j. Write j d (f j)) ks) = []"
  by (induction ks) simp_all








section \<open>A payload larger than the buffer\<close>








lemma distinct_dests [simp]: "distinct (dests srv i a s)"
  by (simp add: dests_def del: upt_Suc)










section \<open>The listening socket\<close>

lemma digits_length: "0 < k \<Longrightarrow> n < 10 ^ k \<Longrightarrow> length (digits n) \<le> k"
proof (induction k arbitrary: n)
  case 0
  then show ?case by simp
next
  case (Suc k)
  show ?case
  proof (cases "n < 10")
    case True
    then show ?thesis by (simp add: digits.simps [of n])
  next
    case False
    with Suc.prems have k: "0 < k" by (cases k) simp_all
    from Suc.prems have "n div 10 < 10 ^ k" by (simp add: less_mult_imp_div_less mult.commute)
    from Suc.IH [OF k this] False show ?thesis by (simp add: digits.simps [of n])
  qed
qed

lemma sprintf_d_fits:
  assumes "- 9999 \<le> port" and "port \<le> 99999"
  shows "length (sprintf_d port) + 1 \<le> 6"
proof (cases "port < 0")
  case True
  with assms have "nat (- port) < 10 ^ 4" by simp
  then have "length (digits (nat (- port))) \<le> 4" by (rule digits_length [rotated]) simp
  with True show ?thesis by (simp add: sprintf_d_def)
next
  case False
  with assms have "nat port < 10 ^ 5" by simp
  then have "length (digits (nat port)) \<le> 5" by (rule digits_length [rotated]) simp
  with False show ?thesis by (simp add: sprintf_d_def)
qed

lemma socket_attempts_append:
  "socket_attempts (xs @ ys) = socket_attempts xs @ socket_attempts ys"
  by (induction xs rule: socket_attempts.induct) simp_all

lemma reuse_before_bind_append:
  "reuse_before_bind prev (xs @ ys) =
     (reuse_before_bind prev xs \<and> reuse_before_bind (if xs = [] then prev else Some (last xs)) ys)"
  by (induction prev xs rule: reuse_before_bind.induct) simp_all

lemma passed_overE:
  assumes "passed_over env k"
  obtains (no_socket) e where "socket_ret env k = Err e"
  | (no_bind) fd r e where "socket_ret env k = Ok fd" "setsockopt_ret env k = Ok r"
      "bind_ret env k = Err e"
  using assms by (auto simp: passed_over_def split: sysret.splits)

lemma bind_loop_reuse:
  "reuse_before_bind None tr \<Longrightarrow> reuse_before_bind None (srv_events (bind_loop env k res0 tr))"
proof (induction res0 arbitrary: k tr)
  case Nil
  then show ?case by (simp add: srv_events_def)
next
  case (Cons res rest)
  show ?case
  proof (cases "socket_ret env k")
    case (Err e)
    with Cons.IH [of "tr @ [Socket (ai_family res) (ai_socktype res) (ai_protocol res) (Err e)]" "Suc k"]
      Cons.prems
    show ?thesis by (simp add: reuse_before_bind_append)
  next
    case sock: (Ok fd)
    show ?thesis
    proof (cases "setsockopt_ret env k")
      case (Err e)
      with sock Cons.prems show ?thesis
        by (simp add: srv_events_def error_def reuse_before_bind_append)
    next
      case sso: (Ok r)
      show ?thesis
      proof (cases "bind_ret env k")
        case (Err e)
        with sock sso Cons.prems
          Cons.IH [of "tr @ [Socket (ai_family res) (ai_socktype res) (ai_protocol res) (Ok fd),
                             Setsockopt fd SO_REUSEADDR 1 (Ok r), Bind fd (ai_addr res) (Err e)]" "Suc k"]
        show ?thesis by (simp add: reuse_before_bind_append sets_reuseaddr_def)
      next
        case (Ok b)
        with sock sso Cons.prems show ?thesis
          by (simp add: srv_events_def reuse_before_bind_append sets_reuseaddr_def)
      qed
    qed
  qed
qed

lemma bind_loop_none:
  "(\<forall>k'<length res0. passed_over env (k0 + k')) \<Longrightarrow>
     \<exists>tr'. bind_loop env k0 res0 tr = Inr (None, tr @ tr') \<and>
           socket_attempts tr' = map candidate res0"
proof (induction res0 arbitrary: k0 tr)
  case Nil
  then show ?case by simp
next
  case (Cons res rest)
  from Cons.prems have here: "passed_over env k0" by force
  from Cons.prems have later: "\<forall>k'<length rest. passed_over env (Suc k0 + k')" by force
  from here show ?case
  proof (cases rule: passed_overE)
    case (no_socket e)
    let ?ev = "[Socket (ai_family res) (ai_socktype res) (ai_protocol res) (Err e)]"
    from Cons.IH [OF later, of "tr @ ?ev"] obtain tr' where
      "bind_loop env (Suc k0) rest (tr @ ?ev) = Inr (None, (tr @ ?ev) @ tr')"
      "socket_attempts tr' = map candidate rest"
      by blast
    with no_socket show ?thesis
      by (intro exI [of _ "?ev @ tr'"]) (simp add: candidate_def)
  next
    case (no_bind fd r e)
    let ?ev = "[Socket (ai_family res) (ai_socktype res) (ai_protocol res) (Ok fd),
                Setsockopt fd SO_REUSEADDR 1 (Ok r), Bind fd (ai_addr res) (Err e)]"
    from Cons.IH [OF later, of "tr @ ?ev"] obtain tr' where
      "bind_loop env (Suc k0) rest (tr @ ?ev) = Inr (None, (tr @ ?ev) @ tr')"
      "socket_attempts tr' = map candidate rest"
      by blast
    with no_bind show ?thesis
      by (intro exI [of _ "?ev @ tr'"]) (simp add: candidate_def)
  qed
qed

lemma bind_loop_first:
  "k < length res0 \<Longrightarrow> (\<forall>k'<k. passed_over env (k0 + k')) \<Longrightarrow>
   socket_ret env (k0 + k) = Ok fd \<Longrightarrow> setsockopt_ret env (k0 + k) = Ok r \<Longrightarrow>
   bind_ret env (k0 + k) = Ok b \<Longrightarrow>
     \<exists>tr'. bind_loop env k0 res0 tr = Inr (Some fd, tr @ tr') \<and>
           socket_attempts tr' = map candidate (take (Suc k) res0) \<and>
           tr' \<noteq> [] \<and> last tr' = Bind fd (ai_addr (res0 ! k)) (Ok b)"
proof (induction res0 arbitrary: k k0 tr)
  case Nil
  then show ?case by simp
next
  case (Cons res rest)
  show ?case
  proof (cases k)
    case 0
    let ?ev = "[Socket (ai_family res) (ai_socktype res) (ai_protocol res) (Ok fd),
                Setsockopt fd SO_REUSEADDR 1 (Ok r), Bind fd (ai_addr res) (Ok b)]"
    from 0 Cons.prems show ?thesis
      by (intro exI [of _ ?ev]) (simp add: candidate_def)
  next
    case (Suc m)
    with Cons.prems have m: "m < length rest" by simp
    from Suc Cons.prems have here: "passed_over env k0" by force
    from Suc Cons.prems have later: "\<forall>k'<m. passed_over env (Suc k0 + k')" by force
    from Suc Cons.prems have at: "socket_ret env (Suc k0 + m) = Ok fd"
      "setsockopt_ret env (Suc k0 + m) = Ok r" "bind_ret env (Suc k0 + m) = Ok b"
      by simp_all
    from here show ?thesis
    proof (cases rule: passed_overE)
      case (no_socket e)
      let ?ev = "[Socket (ai_family res) (ai_socktype res) (ai_protocol res) (Err e)]"
      from Cons.IH [OF m later at, of "tr @ ?ev"] obtain tr' where
        "bind_loop env (Suc k0) rest (tr @ ?ev) = Inr (Some fd, (tr @ ?ev) @ tr')"
        "socket_attempts tr' = map candidate (take (Suc m) rest)"
        "tr' \<noteq> []" "last tr' = Bind fd (ai_addr (rest ! m)) (Ok b)"
        by blast
      with no_socket Suc show ?thesis
        by (intro exI [of _ "?ev @ tr'"]) (simp add: candidate_def)
    next
      case (no_bind fd' r' e)
      let ?ev = "[Socket (ai_family res) (ai_socktype res) (ai_protocol res) (Ok fd'),
                  Setsockopt fd' SO_REUSEADDR 1 (Ok r'), Bind fd' (ai_addr res) (Err e)]"
      from Cons.IH [OF m later at, of "tr @ ?ev"] obtain tr' where
        "bind_loop env (Suc k0) rest (tr @ ?ev) = Inr (Some fd, (tr @ ?ev) @ tr')"
        "socket_attempts tr' = map candidate (take (Suc m) rest)"
        "tr' \<noteq> []" "last tr' = Bind fd (ai_addr (rest ! m)) (Ok b)"
        by blast
      with no_bind Suc show ?thesis
        by (intro exI [of _ "?ev @ tr'"]) (simp add: candidate_def)
    qed
  qed
qed

lemma bind_loop_extends:
  "\<exists>es. srv_events (bind_loop env k res0 tr) = tr @ es"
proof (induction res0 arbitrary: k tr)
  case Nil
  show ?case by (simp add: srv_events_def)
next
  case (Cons res rest)
  show ?case
  proof (cases "socket_ret env k")
    case (Err e)
    let ?ev = "[Socket (ai_family res) (ai_socktype res) (ai_protocol res) (Err e)]"
    from Cons [of "Suc k" "tr @ ?ev"] obtain es where
      "srv_events (bind_loop env (Suc k) rest (tr @ ?ev)) = (tr @ ?ev) @ es"
      by blast
    with Err show ?thesis by (intro exI [of _ "?ev @ es"]) simp
  next
    case sock: (Ok fd)
    show ?thesis
    proof (cases "setsockopt_ret env k")
      case (Err e)
      with sock show ?thesis by (simp add: srv_events_def error_def)
    next
      case sso: (Ok r)
      show ?thesis
      proof (cases "bind_ret env k")
        case (Err e)
        let ?ev = "[Socket (ai_family res) (ai_socktype res) (ai_protocol res) (Ok fd),
                    Setsockopt fd SO_REUSEADDR 1 (Ok r), Bind fd (ai_addr res) (Err e)]"
        from Cons [of "Suc k" "tr @ ?ev"] obtain es where
          "srv_events (bind_loop env (Suc k) rest (tr @ ?ev)) = (tr @ ?ev) @ es"
          by blast
        with sock sso Err show ?thesis by (intro exI [of _ "?ev @ es"]) simp
      next
        case (Ok b)
        with sock sso show ?thesis by (simp add: srv_events_def)
      qed
    qed
  qed
qed

lemma init_srv_unfold:
  assumes fits: "length (sprintf_d port) + 1 \<le> 6"
    and gai: "getaddrinfo_ret env (sprintf_d port) = (err, res0)"
  shows "init_srv env port =
     (let tr1 = (if port < 1 \<or> port > 65535 then [Stderr (''Invalid port'' @ [CHR 0x0A])] else [])
                  @ [Getaddrinfo None (sprintf_d port) hints]
      in if err \<noteq> 0 then
           Inl (Exit EXIT_FAILURE
                  (tr1 @ [Stderr (''ERROR on getaddrinfo: '' @ gai_strerror env err @ [CHR 0x0A])]))
         else
           case bind_loop env 0 res0 tr1 of
             Inl h \<Rightarrow> Inl h
           | Inr (None, tr2) \<Rightarrow> Inl (Exit EXIT_FAILURE (tr2 @ [Stderr (''ERROR binding'' @ [CHR 0x0A])]))
           | Inr (Some srv_sockfd, tr2) \<Rightarrow>
               (case listen_ret env of
                  Err e \<Rightarrow>
                    Inl (error ''ERROR on listen'' e
                           (tr2 @ [Freeaddrinfo, Listen srv_sockfd MAX_CONNS (Err e)]))
                | Ok l \<Rightarrow>
                    (case sigaction_ret env of
                       Err e \<Rightarrow>
                         Inl (error ''ERROR on sigaction'' e
                                (tr2 @ [Freeaddrinfo, Listen srv_sockfd MAX_CONNS (Ok l),
                                        Sigaction SIGCHLD (Err e)]))
                     | Ok g \<Rightarrow>
                         Inr (srv_sockfd,
                              tr2 @ [Freeaddrinfo, Listen srv_sockfd MAX_CONNS (Ok l),
                                     Sigaction SIGCHLD (Ok g)]))))"
  using fits by (simp add: init_srv_def Let_def gai split: sum.splits option.splits sysret.splits)

lemma init_srv_reuse:
  assumes fits: "length (sprintf_d port) + 1 \<le> 6"
  shows "reuse_before_bind None (srv_events (init_srv env port))"
proof -
  obtain err res0 where gai: "getaddrinfo_ret env (sprintf_d port) = (err, res0)"
    by (cases "getaddrinfo_ret env (sprintf_d port)")
  let ?tr1 = "(if port < 1 \<or> port > 65535 then [Stderr (''Invalid port'' @ [CHR 0x0A])] else [])
                  @ [Getaddrinfo None (sprintf_d port) hints]"
  note eq = init_srv_unfold [OF fits gai]
  have t1: "reuse_before_bind None ?tr1" by simp
  show ?thesis
  proof (cases "err \<noteq> 0")
    case True
    with t1 show ?thesis by (simp add: eq Let_def srv_events_def reuse_before_bind_append)
  next
    case False
    from bind_loop_reuse [OF t1, of env 0 res0]
    have r: "reuse_before_bind None (srv_events (bind_loop env 0 res0 ?tr1))" .
    show ?thesis
    proof (cases "bind_loop env 0 res0 ?tr1")
      case (Inl h)
      with False r show ?thesis by (simp add: eq Let_def srv_events_def)
    next
      case (Inr x)
      obtain found tr2 where x: "x = (found, tr2)" by (cases x)
      from r Inr x have t2: "reuse_before_bind None tr2" by (simp add: srv_events_def)
      with False Inr x show ?thesis
        by (cases found; cases "listen_ret env"; cases "sigaction_ret env")
          (simp_all add: eq Let_def srv_events_def error_def reuse_before_bind_append)
    qed
  qed
qed

text \<open>
  C6. \<open>init_srv\<close> on a valid port. It first asks \<open>getaddrinfo\<close> for the port's text with
  no host name and \<open>AI_PASSIVE\<close>, for any family, that is for the wildcard addresses. It
  exits with failure when that fails. Otherwise it goes through the candidates in their
  order, passing over each that gets no socket or cannot be bound, and stops at the
  first that binds: its \<open>socket\<close> calls are those of the candidates up to that one, and
  the last thing before \<open>listen\<close> is its successful \<open>bind\<close>. Every \<open>bind\<close>, whether it
  succeeds or not, comes directly after \<open>SO_REUSEADDR\<close> was set to 1 on the same socket.
  When every candidate is passed over it exits with failure after having tried them
  all. On the bound socket it calls \<open>listen\<close> with a backlog of 10 and exits with
  failure when that fails; when it succeeds, and the signal handler is installed, the
  bound socket is returned.
\<close>

theorem init_srv_binds_first_candidate_and_listens:
  assumes valid: "1 \<le> port \<and> port \<le> 65535"
    and gai: "getaddrinfo_ret env (sprintf_d port) = (err, res0)"
  shows "MAX_CONNS = 10 \<and> EXIT_FAILURE \<noteq> 0
    \<and> (\<exists>es. srv_events (init_srv env port) = Getaddrinfo None (sprintf_d port) hints # es)
    \<and> AI_PASSIVE \<in> set (ai_flags hints) \<and> ai_family hints = AF_UNSPEC
    \<and> ai_socktype hints = SOCK_STREAM
    \<and> reuse_before_bind None (srv_events (init_srv env port))
    \<and> (err \<noteq> 0 \<longrightarrow>
          init_srv env port =
            Inl (Exit EXIT_FAILURE
                   [Getaddrinfo None (sprintf_d port) hints,
                    Stderr (''ERROR on getaddrinfo: '' @ gai_strerror env err @ [CHR 0x0A])]))
    \<and> (err = 0 \<and> (\<forall>k<length res0. passed_over env k) \<longrightarrow>
          (\<exists>tr. init_srv env port =
                  Inl (Exit EXIT_FAILURE
                         (Getaddrinfo None (sprintf_d port) hints # tr
                            @ [Stderr (''ERROR binding'' @ [CHR 0x0A])])) \<and>
                socket_attempts tr = map candidate res0))
    \<and> (err = 0 \<and> k < length res0 \<and> (\<forall>k'<k. passed_over env k') \<and>
        socket_ret env k = Ok fd \<and> setsockopt_ret env k = Ok r \<and> bind_ret env k = Ok b \<longrightarrow>
          (\<exists>tr. socket_attempts tr = map candidate (take (Suc k) res0) \<and>
                last tr = Bind fd (ai_addr (res0 ! k)) (Ok b) \<and>
                (\<forall>e. listen_ret env = Err e \<longrightarrow>
                   init_srv env port =
                     Inl (Exit EXIT_FAILURE
                            (Getaddrinfo None (sprintf_d port) hints # tr
                               @ [Freeaddrinfo, Listen fd MAX_CONNS (Err e),
                                  Perror ''ERROR on listen'' e]))) \<and>
                (\<forall>l g. listen_ret env = Ok l \<and> sigaction_ret env = Ok g \<longrightarrow>
                   init_srv env port =
                     Inr (fd, Getaddrinfo None (sprintf_d port) hints # tr
                                @ [Freeaddrinfo, Listen fd MAX_CONNS (Ok l),
                                   Sigaction SIGCHLD (Ok g)]))))"
proof -
  let ?G = "Getaddrinfo None (sprintf_d port) hints"
  from valid have fits: "length (sprintf_d port) + 1 \<le> 6"
    by (intro sprintf_d_fits) simp_all
  from valid have tr1: "(if port < 1 \<or> port > 65535 then [Stderr (''Invalid port'' @ [CHR 0x0A])] else [])
                  @ [?G] = [?G]"
    by simp
  note eq = init_srv_unfold [OF fits gai, unfolded tr1 Let_def]
  have fixed: "MAX_CONNS = 10 \<and> EXIT_FAILURE \<noteq> 0 \<and> AI_PASSIVE \<in> set (ai_flags hints)
      \<and> ai_family hints = AF_UNSPEC \<and> ai_socktype hints = SOCK_STREAM"
    by (simp add: MAX_CONNS_def EXIT_FAILURE_def hints_def)
  have reuse: "reuse_before_bind None (srv_events (init_srv env port))"
    using fits by (rule init_srv_reuse)
  have resolve: "init_srv env port =
            Inl (Exit EXIT_FAILURE
                   [?G, Stderr (''ERROR on getaddrinfo: '' @ gai_strerror env err @ [CHR 0x0A])])"
    if "err \<noteq> 0"
    using that by (simp add: eq)
  have none: "\<exists>tr. init_srv env port =
                  Inl (Exit EXIT_FAILURE (?G # tr @ [Stderr (''ERROR binding'' @ [CHR 0x0A])])) \<and>
                socket_attempts tr = map candidate res0"
    if a: "err = 0 \<and> (\<forall>k<length res0. passed_over env k)"
  proof -
    from a have "\<forall>k'<length res0. passed_over env (0 + k')" by simp
    from bind_loop_none [OF this, of "[?G]"] obtain tr where
      "bind_loop env 0 res0 [?G] = Inr (None, [?G] @ tr)" "socket_attempts tr = map candidate res0"
      by blast
    with a show ?thesis by (intro exI [of _ tr]) (simp add: eq)
  qed
  have first: "\<exists>tr. socket_attempts tr = map candidate (take (Suc k) res0) \<and>
                last tr = Bind fd (ai_addr (res0 ! k)) (Ok b) \<and>
                (\<forall>e. listen_ret env = Err e \<longrightarrow>
                   init_srv env port =
                     Inl (Exit EXIT_FAILURE
                            (?G # tr @ [Freeaddrinfo, Listen fd MAX_CONNS (Err e),
                                        Perror ''ERROR on listen'' e]))) \<and>
                (\<forall>l g. listen_ret env = Ok l \<and> sigaction_ret env = Ok g \<longrightarrow>
                   init_srv env port =
                     Inr (fd, ?G # tr @ [Freeaddrinfo, Listen fd MAX_CONNS (Ok l),
                                         Sigaction SIGCHLD (Ok g)]))"
    if a: "err = 0 \<and> k < length res0 \<and> (\<forall>k'<k. passed_over env k') \<and>
        socket_ret env k = Ok fd \<and> setsockopt_ret env k = Ok r \<and> bind_ret env k = Ok b"
  proof -
    from a have "k < length res0" "\<forall>k'<k. passed_over env (0 + k')" "socket_ret env (0 + k) = Ok fd"
      "setsockopt_ret env (0 + k) = Ok r" "bind_ret env (0 + k) = Ok b"
      by simp_all
    from bind_loop_first [OF this, of "[?G]"] obtain tr where
      bl: "bind_loop env 0 res0 [?G] = Inr (Some fd, [?G] @ tr)"
      and tr: "socket_attempts tr = map candidate (take (Suc k) res0)"
        "last tr = Bind fd (ai_addr (res0 ! k)) (Ok b)"
      by blast
    from a bl have "\<forall>e. listen_ret env = Err e \<longrightarrow>
                   init_srv env port =
                     Inl (Exit EXIT_FAILURE
                            (?G # tr @ [Freeaddrinfo, Listen fd MAX_CONNS (Err e),
                                        Perror ''ERROR on listen'' e]))"
      by (simp add: eq error_def)
    moreover from a bl have "\<forall>l g. listen_ret env = Ok l \<and> sigaction_ret env = Ok g \<longrightarrow>
                   init_srv env port =
                     Inr (fd, ?G # tr @ [Freeaddrinfo, Listen fd MAX_CONNS (Ok l),
                                         Sigaction SIGCHLD (Ok g)])"
      by (simp add: eq)
    ultimately show ?thesis using tr by (intro exI [of _ tr]) simp
  qed
  have start: "\<exists>es. srv_events (init_srv env port) = ?G # es"
  proof (cases "err \<noteq> 0")
    case True
    then show ?thesis by (simp add: eq srv_events_def)
  next
    case False
    from bind_loop_extends [of env 0 res0 "[?G]"] obtain es where
      es: "srv_events (bind_loop env 0 res0 [?G]) = ?G # es"
      by auto
    show ?thesis
    proof (cases "bind_loop env 0 res0 [?G]")
      case (Inl h)
      with False es show ?thesis by (simp add: eq srv_events_def)
    next
      case (Inr x)
      obtain found tr2 where x: "x = (found, tr2)" by (cases x)
      with Inr es have "tr2 = ?G # es" by (simp add: srv_events_def)
      with False Inr x show ?thesis
        by (cases found; cases "listen_ret env"; cases "sigaction_ret env")
          (simp_all add: eq srv_events_def error_def)
    qed
  qed
  from fixed start reuse resolve none first show ?thesis by blast
qed

theorem init_srv_binds_first_candidate_and_listens_witness:
  "getaddrinfo_ret env_second_binds (sprintf_d 6601) = (0, two_candidates)
   \<and> passed_over env_second_binds 0
   \<and> (\<exists>tr. init_srv env_second_binds 6601 =
              Inr (4, Getaddrinfo None (sprintf_d 6601) hints # tr
                        @ [Freeaddrinfo, Listen 4 10 (Ok 0), Sigaction SIGCHLD (Ok 0)])
            \<and> socket_attempts tr = [(AF_INET, SOCK_STREAM, 6), (AF_INET6, SOCK_STREAM, 6)]
            \<and> last tr = Bind 4 ''::'' (Ok 0))
   \<and> srv_events (init_srv env_second_binds 6601) =
       [Getaddrinfo None ''6601'' hints,
        Socket AF_INET SOCK_STREAM 6 (Ok 3), Setsockopt 3 SO_REUSEADDR 1 (Ok 0),
        Bind 3 ''0.0.0.0'' (Err EADDRINUSE),
        Socket AF_INET6 SOCK_STREAM 6 (Ok 4), Setsockopt 4 SO_REUSEADDR 1 (Ok 0),
        Bind 4 ''::'' (Ok 0),
        Freeaddrinfo, Listen 4 10 (Ok 0), Sigaction SIGCHLD (Ok 0)]"
proof -
  have valid: "(1 :: int) \<le> 6601 \<and> (6601 :: int) \<le> 65535" by simp
  have sp: "sprintf_d 6601 = ''6601''"
    by (simp add: sprintf_d_def digits.simps digit_def)
  have gai: "getaddrinfo_ret env_second_binds (sprintf_d 6601) = (0, two_candidates)"
    by (simp add: env_second_binds_def)
  have over: "passed_over env_second_binds 0"
    by (simp add: passed_over_def env_second_binds_def)
  have h: "(0 :: int) = 0 \<and> 1 < length two_candidates \<and> (\<forall>k'<1. passed_over env_second_binds k') \<and>
        socket_ret env_second_binds 1 = Ok 4 \<and> setsockopt_ret env_second_binds 1 = Ok 0 \<and>
        bind_ret env_second_binds 1 = Ok 0"
    using over by (simp add: env_second_binds_def two_candidates_def)
  have l: "listen_ret env_second_binds = Ok 0 \<and> sigaction_ret env_second_binds = Ok 0"
    by (simp add: env_second_binds_def)
  have c: "map candidate (take (Suc 1) two_candidates) = [(AF_INET, SOCK_STREAM, 6), (AF_INET6, SOCK_STREAM, 6)]"
    "ai_addr (two_candidates ! 1) = ''::''"
    by (simp_all add: two_candidates_def candidate_def)
  note inst = init_srv_binds_first_candidate_and_listens
    [OF valid gai, where k = 1 and fd = 4 and r = 0 and b = 0,
     THEN conjunct2, THEN conjunct2, THEN conjunct2, THEN conjunct2, THEN conjunct2,
     THEN conjunct2, THEN conjunct2, THEN conjunct2, THEN conjunct2, THEN mp, OF h]
  from inst obtain tr where tr: "socket_attempts tr = map candidate (take (Suc 1) two_candidates) \<and>
      last tr = Bind 4 (ai_addr (two_candidates ! 1)) (Ok 0) \<and>
      (\<forall>e. listen_ret env_second_binds = Err e \<longrightarrow>
         init_srv env_second_binds 6601 =
           Inl (Exit EXIT_FAILURE
                  (Getaddrinfo None (sprintf_d 6601) hints # tr
                     @ [Freeaddrinfo, Listen 4 MAX_CONNS (Err e), Perror ''ERROR on listen'' e]))) \<and>
      (\<forall>l g. listen_ret env_second_binds = Ok l \<and> sigaction_ret env_second_binds = Ok g \<longrightarrow>
         init_srv env_second_binds 6601 =
           Inr (4, Getaddrinfo None (sprintf_d 6601) hints # tr
                     @ [Freeaddrinfo, Listen 4 MAX_CONNS (Ok l), Sigaction SIGCHLD (Ok g)]))"
    by (rule exE)
  from tr l have run: "init_srv env_second_binds 6601 =
           Inr (4, Getaddrinfo None (sprintf_d 6601) hints # tr
                     @ [Freeaddrinfo, Listen 4 10 (Ok 0), Sigaction SIGCHLD (Ok 0)])"
    by (simp add: MAX_CONNS_def)
  from tr c have at: "socket_attempts tr = [(AF_INET, SOCK_STREAM, 6), (AF_INET6, SOCK_STREAM, 6)]"
    "last tr = Bind 4 ''::'' (Ok 0)"
    by simp_all
  have ev: "srv_events (init_srv env_second_binds 6601) =
       [Getaddrinfo None ''6601'' hints,
        Socket AF_INET SOCK_STREAM 6 (Ok 3), Setsockopt 3 SO_REUSEADDR 1 (Ok 0),
        Bind 3 ''0.0.0.0'' (Err EADDRINUSE),
        Socket AF_INET6 SOCK_STREAM 6 (Ok 4), Setsockopt 4 SO_REUSEADDR 1 (Ok 0),
        Bind 4 ''::'' (Ok 0),
        Freeaddrinfo, Listen 4 10 (Ok 0), Sigaction SIGCHLD (Ok 0)]"
    by (simp add: init_srv_def sp env_second_binds_def two_candidates_def srv_events_def
        MAX_CONNS_def Let_def)
  have first: "\<exists>tr. init_srv env_second_binds 6601 =
              Inr (4, Getaddrinfo None (sprintf_d 6601) hints # tr
                        @ [Freeaddrinfo, Listen 4 10 (Ok 0), Sigaction SIGCHLD (Ok 0)])
            \<and> socket_attempts tr = [(AF_INET, SOCK_STREAM, 6), (AF_INET6, SOCK_STREAM, 6)]
            \<and> last tr = Bind 4 ''::'' (Ok 0)"
    using run at by (intro exI [of _ tr] conjI)
  have gai_no: "getaddrinfo_ret env_no_address (sprintf_d 6601) = (- 2, [])"
    by (simp add: env_no_address_def)
  have "(- 2 :: int) \<noteq> 0" by simp
  with init_srv_binds_first_candidate_and_listens
    [OF valid gai_no, THEN conjunct2, THEN conjunct2, THEN conjunct2, THEN conjunct2,
     THEN conjunct2, THEN conjunct2, THEN conjunct2, THEN conjunct1]
  have "init_srv env_no_address 6601 =
      Inl (Exit EXIT_FAILURE
             [Getaddrinfo None (sprintf_d 6601) hints,
              Stderr (''ERROR on getaddrinfo: '' @ gai_strerror env_no_address (- 2) @ [CHR 0x0A])])"
    by (rule mp)
  then have no_address: "init_srv env_no_address 6601 =
       Inl (Exit 1 [Getaddrinfo None (sprintf_d 6601) hints,
                    Stderr (''ERROR on getaddrinfo: unknown'' @ [CHR 0x0A])])"
    by (simp add: EXIT_FAILURE_def env_no_address_def env_second_binds_def)
  have gai_nb: "getaddrinfo_ret env_none_bind (sprintf_d 6601) = (0, two_candidates)"
    by (simp add: env_none_bind_def env_second_binds_def)
  have hn: "(0 :: int) = 0 \<and> (\<forall>k<length two_candidates. passed_over env_none_bind k)"
    by (simp add: passed_over_def env_none_bind_def env_second_binds_def)
  have cn: "map candidate two_candidates = [(AF_INET, SOCK_STREAM, 6), (AF_INET6, SOCK_STREAM, 6)]"
    by (simp add: two_candidates_def candidate_def)
  from init_srv_binds_first_candidate_and_listens
    [OF valid gai_nb, THEN conjunct2, THEN conjunct2, THEN conjunct2, THEN conjunct2,
     THEN conjunct2, THEN conjunct2, THEN conjunct2, THEN conjunct2, THEN conjunct1, THEN mp, OF hn]
  have none: "\<exists>tr. init_srv env_none_bind 6601 =
              Inl (Exit 1 (Getaddrinfo None (sprintf_d 6601) hints # tr
                             @ [Stderr (''ERROR binding'' @ [CHR 0x0A])]))
            \<and> socket_attempts tr = [(AF_INET, SOCK_STREAM, 6), (AF_INET6, SOCK_STREAM, 6)]"
    by (simp only: EXIT_FAILURE_def cn)
  have gai_lf: "getaddrinfo_ret env_listen_fails (sprintf_d 6601) = (0, two_candidates)"
    by (simp add: env_listen_fails_def env_second_binds_def)
  have hl: "(0 :: int) = 0 \<and> 1 < length two_candidates \<and> (\<forall>k'<1. passed_over env_listen_fails k') \<and>
        socket_ret env_listen_fails 1 = Ok 4 \<and> setsockopt_ret env_listen_fails 1 = Ok 0 \<and>
        bind_ret env_listen_fails 1 = Ok 0"
    by (simp add: passed_over_def env_listen_fails_def env_second_binds_def two_candidates_def)
  have lf: "listen_ret env_listen_fails = Err EADDRINUSE"
    by (simp add: env_listen_fails_def)
  from init_srv_binds_first_candidate_and_listens
    [OF valid gai_lf, where k = 1 and fd = 4 and r = 0 and b = 0,
     THEN conjunct2, THEN conjunct2, THEN conjunct2, THEN conjunct2, THEN conjunct2,
     THEN conjunct2, THEN conjunct2, THEN conjunct2, THEN conjunct2, THEN mp, OF hl]
  obtain tr' where "\<forall>e. listen_ret env_listen_fails = Err e \<longrightarrow>
         init_srv env_listen_fails 6601 =
           Inl (Exit EXIT_FAILURE
                  (Getaddrinfo None (sprintf_d 6601) hints # tr'
                     @ [Freeaddrinfo, Listen 4 MAX_CONNS (Err e), Perror ''ERROR on listen'' e]))"
    by (elim exE conjE)
  with lf have "init_srv env_listen_fails 6601 =
           Inl (Exit EXIT_FAILURE
                  (Getaddrinfo None (sprintf_d 6601) hints # tr'
                     @ [Freeaddrinfo, Listen 4 MAX_CONNS (Err EADDRINUSE),
                        Perror ''ERROR on listen'' EADDRINUSE]))"
    by blast
  then have listen: "\<exists>tr. init_srv env_listen_fails 6601 =
              Inl (Exit 1 (Getaddrinfo None (sprintf_d 6601) hints # tr
                             @ [Freeaddrinfo, Listen 4 10 (Err EADDRINUSE),
                                Perror ''ERROR on listen'' EADDRINUSE]))"
    by (intro exI [of _ tr']) (simp add: EXIT_FAILURE_def MAX_CONNS_def)
  from gai over first ev no_address none listen show ?thesis by (intro conjI)
qed

text \<open>
  C7. The claim is that for every port outside 1 to 65535 \<open>init_srv\<close> prints
  \<open>Invalid port\<close> and goes on to resolve, bind and listen as for a valid port. For the
  port 100000 it does print the message, but then \<open>sprintf\<close> writes the six digits and
  the terminating zero, seven bytes, into \<open>port_str\<close>, which has six: the behaviour is
  undefined before \<open>getaddrinfo\<close> is reached.
\<close>

theorem init_srv_port_100000_overflows_port_str:
  "init_srv env 100000 = Inl (Undefined_Behaviour [Stderr (''Invalid port'' @ [CHR 0x0A])])
   \<and> length (sprintf_d 100000) + 1 = 7"
proof -
  have "sprintf_d 100000 = ''100000''"
    by (simp add: sprintf_d_def digits.simps digit_def)
  then show ?thesis by (simp add: init_srv_def)
qed

text \<open>An invalid port whose text fits \<open>port_str\<close> is reported and then resolved, as the
  claim says.\<close>

lemma init_srv_invalid_port_goes_on:
  assumes "port < 1 \<or> 65535 < port" and "- 9999 \<le> port" and "port \<le> 99999"
  shows "\<exists>es. srv_events (init_srv env port) =
           Stderr (''Invalid port'' @ [CHR 0x0A]) # Getaddrinfo None (sprintf_d port) hints # es"
proof -
  let ?tr1 = "[Stderr (''Invalid port'' @ [CHR 0x0A]), Getaddrinfo None (sprintf_d port) hints]"
  obtain err res0 where gai: "getaddrinfo_ret env (sprintf_d port) = (err, res0)"
    by (cases "getaddrinfo_ret env (sprintf_d port)")
  from assms have t: "(if port < 1 \<or> port > 65535 then [Stderr (''Invalid port'' @ [CHR 0x0A])] else [])
      @ [Getaddrinfo None (sprintf_d port) hints] = ?tr1"
    by auto
  note eq = init_srv_unfold [OF sprintf_d_fits [OF assms(2,3)] gai, unfolded t Let_def]
  show ?thesis
  proof (cases "err \<noteq> 0")
    case True
    then show ?thesis by (simp add: eq srv_events_def)
  next
    case False
    from bind_loop_extends [of env 0 res0 ?tr1] obtain es where
      es: "srv_events (bind_loop env 0 res0 ?tr1) = ?tr1 @ es"
      by blast
    show ?thesis
    proof (cases "bind_loop env 0 res0 ?tr1")
      case (Inl h)
      with False es show ?thesis by (simp add: eq srv_events_def)
    next
      case (Inr x)
      obtain found tr2 where x: "x = (found, tr2)" by (cases x)
      with Inr es have "tr2 = ?tr1 @ es" by (simp add: srv_events_def)
      with False Inr x show ?thesis
        by (cases found; cases "listen_ret env"; cases "sigaction_ret env")
          (simp_all add: eq srv_events_def error_def)
    qed
  qed
qed

text \<open>
  C8, as claimed: a transient failure of \<open>accept\<close> does not end the process. It does:
  \<open>ECONNABORTED\<close> is transient, and with it \<open>init_cli\<close> exits, and so does the loop.
\<close>

theorem transient_accept_failure_is_fatal_counterexample:
  "transient ECONNABORTED
   \<and> init_cli pass_accept_aborted 3 [] =
       Inl (Exit 1 [Accept 3 (Err ECONNABORTED), Perror ''ERROR on accept'' ECONNABORTED])
   \<and> raw_loop 3 [pass_accept_aborted, pass_send 4 ''hello''] (connected {4, 5}) =
       Inl (Exit 1 [Select 6 {3, 4, 5} (Ok 1), Accept 3 (Err ECONNABORTED),
                    Perror ''ERROR on accept'' ECONNABORTED])"
proof -
  have "transient ECONNABORTED" by (simp add: transient_def)
  moreover have "init_cli pass_accept_aborted 3 [] =
       Inl (Exit 1 [Accept 3 (Err ECONNABORTED), Perror ''ERROR on accept'' ECONNABORTED])"
    by (simp add: init_cli_def pass_accept_aborted_def error_def EXIT_FAILURE_def)
  moreover have "raw_loop 3 [pass_accept_aborted, pass_send 4 ''hello''] (connected {4, 5}) =
       Inl (Exit 1 [Select 6 {3, 4, 5} (Ok 1), Accept 3 (Err ECONNABORTED),
                    Perror ''ERROR on accept'' ECONNABORTED])"
  proof (rule map_sum_InlD [where g = "\<lambda>s. ()"])
    show "map_sum id (\<lambda>s. ()) (raw_loop 3 [pass_accept_aborted, pass_send 4 ''hello''] (connected {4, 5})) =
       Inl (Exit 1 [Select 6 {3, 4, 5} (Ok 1), Accept 3 (Err ECONNABORTED),
                    Perror ''ERROR on accept'' ECONNABORTED])"
      by code_simp
  qed
  ultimately show ?thesis by (intro conjI)
qed

text \<open>
  C8, amended. \<open>init_cli\<close> calls \<open>accept\<close> once on the listening socket. When the call
  succeeds it returns the new descriptor. When the call fails, with whatever error,
  transient or not, it prints \<open>ERROR on accept\<close> and the process exits with
  \<open>EXIT_FAILURE\<close>: in a pass in which the listening socket is the lowest ready
  descriptor, the whole loop ends there and no later pass is run.
\<close>

theorem every_accept_failure_is_fatal:
  "(accept_ret p = Ok c \<longrightarrow> init_cli p srv tr = Inr (c, tr @ [Accept srv (Ok c)]))
   \<and> (accept_ret p = Err e \<longrightarrow>
        init_cli p srv tr =
          Inl (Exit EXIT_FAILURE (tr @ [Accept srv (Err e), Perror ''ERROR on accept'' e])))
   \<and> EXIT_FAILURE \<noteq> 0
   \<and> (accept_ret p = Err e \<and> select_ret p = Ok n \<and> srv \<in> select_fds p \<and> srv \<in> master s \<and>
       srv \<le> fdmax s \<and> (\<forall>k<srv. k \<notin> master s \<inter> select_fds p) \<longrightarrow>
        raw_loop srv (p # ps) s =
          Inl (Exit EXIT_FAILURE
                 (trace s @ [Select (fdmax s + 1) (master s) (Ok n), Accept srv (Err e),
                             Perror ''ERROR on accept'' e])))"
proof -
  have loop: "raw_loop srv (p # ps) s =
          Inl (Exit EXIT_FAILURE
                 (trace s @ [Select (fdmax s + 1) (master s) (Ok n), Accept srv (Err e),
                             Perror ''ERROR on accept'' e]))"
    if a: "accept_ret p = Err e \<and> select_ret p = Ok n \<and> srv \<in> select_fds p \<and> srv \<in> master s \<and>
       srv \<le> fdmax s \<and> (\<forall>k<srv. k \<notin> master s \<inter> select_fds p)"
  proof -
    let ?rf = "sys_select (Suc (fdmax s)) (master s) (select_fds p)"
    let ?s1 = "s\<lparr>trace := trace s @ [Select (Suc (fdmax s)) (master s) (Ok n)]\<rparr>"
    from a have rf: "srv \<in> ?rf" "\<forall>k. 0 \<le> k \<and> k < srv \<longrightarrow> k \<notin> ?rf"
      by (auto simp: sys_select_def)
    have "dispatch p srv ?rf 0 ?s1 = dispatch p srv ?rf srv ?s1"
      by (rule dispatch_skip_to) (use a rf in simp_all)
    also from a rf(1) have "\<dots> = Inl (Exit EXIT_FAILURE (trace ?s1 @ [Accept srv (Err e),
                             Perror ''ERROR on accept'' e]))"
      by (simp add: dispatch.simps [of p srv ?rf srv] serve_def accept_client_def init_cli_def
          error_def)
    finally show ?thesis using a by (simp add: raw_pass_def Let_def)
  qed
  have "EXIT_FAILURE \<noteq> 0" by (simp add: EXIT_FAILURE_def)
  with loop show ?thesis by (simp add: init_cli_def error_def)
qed

theorem every_accept_failure_is_fatal_witness:
  "accept_ret (pass_connect 3 7) = Ok 7
   \<and> init_cli (pass_connect 3 7) 3 [] = Inr (7, [Accept 3 (Ok 7)])
   \<and> accept_ret ((pass_connect 3 7)\<lparr>accept_ret := Err EMFILE\<rparr>) = Err EMFILE
   \<and> raw_loop 3 [(pass_connect 3 7)\<lparr>accept_ret := Err EMFILE\<rparr>, pass_send 4 ''hello''] (connected {4, 5}) =
       Inl (Exit 1 [Select 6 {3, 4, 5} (Ok 1), Accept 3 (Err EMFILE), Perror ''ERROR on accept'' EMFILE])"
proof -
  let ?p = "(pass_connect 3 7)\<lparr>accept_ret := Err EMFILE\<rparr>"
  have ok: "accept_ret (pass_connect 3 7) = Ok 7" by (simp add: pass_connect_def)
  have h: "accept_ret ?p = Err EMFILE \<and> select_ret ?p = Ok 1 \<and> 3 \<in> select_fds ?p \<and>
       3 \<in> master (connected {4, 5}) \<and> 3 \<le> fdmax (connected {4, 5}) \<and>
       (\<forall>k<3. k \<notin> master (connected {4, 5}) \<inter> select_fds ?p)"
    by (simp add: pass_connect_def connected_def)
  have c: "trace (connected {4, 5}) = []" "fdmax (connected {4, 5}) = 5"
    "master (connected {4, 5}) = {3, 4, 5}"
    by (simp_all add: connected_def)
  from every_accept_failure_is_fatal [where p = "pass_connect 3 7" and c = 7 and srv = 3 and tr = "[]",
      THEN conjunct1, THEN mp, OF ok]
  have one: "init_cli (pass_connect 3 7) 3 [] = Inr (7, [Accept 3 (Ok 7)])" by simp
  from every_accept_failure_is_fatal
      [where p = ?p and e = EMFILE and n = 1 and srv = 3 and s = "connected {4, 5}"
         and ps = "[pass_send 4 ''hello'']",
       THEN conjunct2, THEN conjunct2, THEN conjunct2, THEN mp, OF h]
  have two: "raw_loop 3 [?p, pass_send 4 ''hello''] (connected {4, 5}) =
       Inl (Exit 1 [Select 6 {3, 4, 5} (Ok 1), Accept 3 (Err EMFILE), Perror ''ERROR on accept'' EMFILE])"
    by (simp only: c EXIT_FAILURE_def) simp
  from h have "accept_ret ?p = Err EMFILE" by (rule conjunct1)
  with ok one two show ?thesis by (intro conjI)
qed

end
